theory Spec2Isabelle
  imports Main "HOL-Library.Char_ord"
begin

section \<open>Strings and character classes\<close>

text \<open>
  A JavaScript string is modelled as a \<^typ>\<open>string\<close>, one \<^typ>\<open>char\<close> per code unit
  (code units are restricted to \<open>0..255\<close>).  Reading \<open>str[i]\<close> outside the string
  gives \<open>undefined\<close>, which is \<open>None\<close> here; \<open>str.slice(a, b)\<close> clamps.
\<close>

definition charAt :: "string \<Rightarrow> nat \<Rightarrow> char option" where
  "charAt s i = (if i < length s then Some (s ! i) else None)"

definition slice :: "string \<Rightarrow> nat \<Rightarrow> nat \<Rightarrow> string" where
  "slice s a b = take (b - a) (drop a s)"

definition backslash :: char where
  "backslash = CHR 0x5C"

definition tab :: char where
  "tab = CHR 0x09"

text \<open>The regular-expression classes \<open>\d\<close>, \<open>\w\<close> and \<open>\s\<close>.\<close>

definition is_digit :: "char \<Rightarrow> bool" where
  "is_digit c = (CHR ''0'' \<le> c \<and> c \<le> CHR ''9'')"

definition is_word :: "char \<Rightarrow> bool" where
  "is_word c = ((CHR ''a'' \<le> c \<and> c \<le> CHR ''z'') \<or> (CHR ''A'' \<le> c \<and> c \<le> CHR ''Z'')
      \<or> (CHR ''0'' \<le> c \<and> c \<le> CHR ''9'') \<or> c = CHR ''_'')"

definition is_space :: "char \<Rightarrow> bool" where
  "is_space c = ((CHR 0x09 \<le> c \<and> c \<le> CHR 0x0D) \<or> c = CHR '' '' \<or> c = CHR 0xA0)"

text \<open>The three classifiers at the end of the source file; each may be handed \<open>undefined\<close>.\<close>

definition isWhitespace :: "char option \<Rightarrow> bool" where
  "isWhitespace chr = (chr = Some CHR '' '' \<or> chr = Some tab)"

definition isFormat :: "char option \<Rightarrow> bool" where
  "isFormat chr = (chr = Some CHR ''*'' \<or> chr = Some CHR ''_'' \<or> chr = Some CHR ''`''
      \<or> chr = Some CHR ''<'' \<or> chr = Some CHR ''|'' \<or> chr = Some CHR ''~'')"

definition isChars :: "char option \<Rightarrow> bool" where
  "isChars chr = (\<not> isFormat chr \<and> chr \<noteq> Some CHR ''\<newline>'' \<and> chr \<noteq> Some CHR '' ''
      \<and> chr \<noteq> Some tab)"

section \<open>Regular expressions\<close>

text \<open>
  The three anchored patterns of the source are written as values of a small regular
  expression type and run by a backtracking matcher.  The matcher returns every way to
  match, as the remaining input and the capture groups, in the order a backtracking
  engine tries them: a greedy star tries one more iteration before stopping, a lazy
  star stops first.  An iteration of a star that consumes nothing is rejected, and the
  groups inside a star are cleared when an iteration starts.
\<close>

type_synonym captures = "nat \<Rightarrow> string option"

datatype regex =
    Chr "char \<Rightarrow> bool"
  | Eps
  | Seq regex regex
  | Alt regex regex
  | Star regex
  | LazyStar regex
  | Group nat regex

fun groups :: "regex \<Rightarrow> nat set" where
  "groups (Chr P) = {}"
| "groups Eps = {}"
| "groups (Seq a b) = groups a \<union> groups b"
| "groups (Alt a b) = groups a \<union> groups b"
| "groups (Star a) = groups a"
| "groups (LazyStar a) = groups a"
| "groups (Group i a) = insert i (groups a)"

definition clear :: "nat set \<Rightarrow> captures \<Rightarrow> captures" where
  "clear G c = (\<lambda>i. if i \<in> G then None else c i)"

function rmatch :: "regex \<Rightarrow> string \<times> captures \<Rightarrow> (string \<times> captures) list" where
  "rmatch (Chr P) sc = (case fst sc of [] \<Rightarrow> [] | x # xs \<Rightarrow> if P x then [(xs, snd sc)] else [])"
| "rmatch Eps sc = [sc]"
| "rmatch (Seq a b) sc = concat (map (rmatch b) (rmatch a sc))"
| "rmatch (Alt a b) sc = rmatch a sc @ rmatch b sc"
| "rmatch (Star a) sc =
     concat (map (\<lambda>sc'. if length (fst sc') < length (fst sc) then rmatch (Star a) sc' else [])
                 (rmatch a (fst sc, clear (groups a) (snd sc)))) @ [sc]"
| "rmatch (LazyStar a) sc =
     sc # concat (map (\<lambda>sc'. if length (fst sc') < length (fst sc) then rmatch (LazyStar a) sc' else [])
                      (rmatch a (fst sc, clear (groups a) (snd sc))))"
| "rmatch (Group i a) sc =
     map (\<lambda>sc'. (fst sc', (snd sc')(i \<mapsto> take (length (fst sc) - length (fst sc')) (fst sc))))
         (rmatch a sc)"
  by pat_completeness auto
termination
  by (relation "measures [\<lambda>(r, sc). size r, \<lambda>(r, sc). length (fst sc)]") auto

definition seqs :: "regex list \<Rightarrow> regex" where
  "seqs rs = foldr Seq rs Eps"

definition Plus :: "regex \<Rightarrow> regex" where
  "Plus r = Seq r (Star r)"

definition Opt :: "regex \<Rightarrow> regex" where
  "Opt r = Alt r Eps"

definition Lit :: "char \<Rightarrow> regex" where
  "Lit c = Chr (\<lambda>x. x = c)"

text \<open>
  \<open>s.match(re)\<close> for an anchored pattern without flags: the first match in backtracking
  order, as the matched text (\<open>match[0]\<close>) and the groups (\<open>match[i]\<close>), or \<open>null\<close>.
\<close>

definition exec :: "regex \<Rightarrow> string \<Rightarrow> (string \<times> captures) option" where
  "exec r s = (case rmatch r (s, (\<lambda>i. None)) of
       [] \<Rightarrow> None
     | sc # _ \<Rightarrow> Some (take (length s - length (fst sc)) s, snd sc))"

text \<open>
  \<^verbatim>\<open>tagRegexp = /^<[/!]?(\w[\w-]*)(\s+[\w]+(\s*=\s*("[^"]*"|'[^']*'|[^><"'=``]+))?)*\s*>/\<close>,
  with the attribute group \<^verbatim>\<open>(\s+[\w]+(\s*=\s*(...))?)\<close> named \<open>attrRegexp\<close>.
\<close>

definition attrRegexp :: regex where
  "attrRegexp = Group 2 (seqs
     [Plus (Chr is_space),
      Plus (Chr is_word),
      Opt (Group 3 (seqs
        [Star (Chr is_space),
         Lit CHR ''='',
         Star (Chr is_space),
         Group 4 (Alt (seqs [Lit CHR 0x22, Star (Chr (\<lambda>c. c \<noteq> CHR 0x22)), Lit CHR 0x22])
                 (Alt (seqs [Lit CHR 0x27, Star (Chr (\<lambda>c. c \<noteq> CHR 0x27)), Lit CHR 0x27])
                      (Plus (Chr (\<lambda>c. c \<noteq> CHR ''>'' \<and> c \<noteq> CHR ''<'' \<and> c \<noteq> CHR 0x22
                                \<and> c \<noteq> CHR 0x27 \<and> c \<noteq> CHR ''='' \<and> c \<noteq> CHR ''`'')))))]))])"

definition tagRegexp :: regex where
  "tagRegexp = seqs
     [Lit CHR ''<'',
      Opt (Chr (\<lambda>c. c = CHR ''/'' \<or> c = CHR ''!'')),
      Group 1 (Seq (Chr is_word) (Star (Chr (\<lambda>c. is_word c \<or> c = CHR ''-'')))),
      Star attrRegexp,
      Star (Chr is_space),
      Lit CHR ''>'']"

text \<open>\<^verbatim>\<open>commentRegexp = /^<!--[\w\W]*?-->/\<close>\<close>

definition commentRegexp :: regex where
  "commentRegexp = seqs
     [Lit CHR ''<'', Lit CHR ''!'', Lit CHR ''-'', Lit CHR ''-'',
      LazyStar (Chr (\<lambda>c. True)),
      Lit CHR ''-'', Lit CHR ''-'', Lit CHR ''>'']"

text \<open>\<^verbatim>\<open>idRegexp = /^\[id="([\w-]+)"] /\<close>\<close>

definition idRegexp :: regex where
  "idRegexp = seqs
     [Lit CHR ''['', Lit CHR ''i'', Lit CHR ''d'', Lit CHR ''='', Lit CHR 0x22,
      Group 1 (Plus (Chr (\<lambda>c. is_word c \<or> c = CHR ''-''))),
      Lit CHR 0x22, Lit CHR '']'', Lit CHR '' '']"

definition opaqueTags :: "string set" where
  "opaqueTags = {''emu-grammar'', ''emu-production'', ''pre'', ''code'', ''script'', ''style''}"

section \<open>Tokens and the tokenizer state\<close>

record position =
  offset :: nat
  line :: nat
  column :: int

record location =
  start :: position
  endp :: position

datatype token_name =
    EOF | Whitespace | Ol | Ul | Text | Tag | OpaqueTag | Comment
  | Star_tok | Underscore | Tick | Pipe | Tilde | Linebreak | Parabreak | Id

text \<open>
  A token before \<open>locate\<close> has a name and either \<open>contents\<close> (every token of the scan
  loop but \<open>EOF\<close>) or \<open>value\<close> (the \<open>id\<close> token); \<open>locate\<close> adds the location.
\<close>

record unlocated =
  name :: token_name
  contents :: "string option"
  tvalue :: "string option"

record token = unlocated +
  location :: location

datatype error = SyntaxError string position | TypeError

text \<open>
  The fields of the class \<open>Tokenizer\<close>.  \<open>eof\<close>, \<open>newline\<close> and \<open>lookahead\<close> are the
  source's \<open>_eof\<close>, \<open>_newline\<close> and \<open>_lookahead\<close>; \<open>tline\<close> and \<open>tcolumn\<close> are its
  \<open>line\<close> and \<open>column\<close>.
\<close>

record tokenizer =
  str :: string
  eof :: bool
  pos :: nat
  queue :: "token list"
  newline :: bool
  lookahead :: "token list"
  previous :: "token option"
  tline :: nat
  tcolumn :: int

definition Tokenizer :: "string \<Rightarrow> tokenizer" where
  "Tokenizer s = \<lparr>str = s, eof = False, pos = 0, queue = [], newline = True,
     lookahead = [], previous = None, tline = 1, tcolumn = 1\<rparr>"

definition tok :: "token_name \<Rightarrow> string \<Rightarrow> unlocated" where
  "tok n c = \<lparr>name = n, contents = Some c, tvalue = None\<rparr>"

definition getLocation :: "tokenizer \<Rightarrow> position" where
  "getLocation st = \<lparr>offset = pos st, line = tline st, column = tcolumn st\<rparr>"

definition locate :: "tokenizer \<Rightarrow> unlocated \<Rightarrow> position \<Rightarrow> token \<times> tokenizer" where
  "locate st t startPos =
     (let st' =
        (if name t = Linebreak then st\<lparr>tcolumn := 1, tline := tline st + 1\<rparr>
         else if name t = Parabreak then
           st\<lparr>tcolumn := 1, tline := tline st + length (case contents t of Some c \<Rightarrow> c | None \<Rightarrow> [])\<rparr>
         else st\<lparr>tcolumn := tcolumn st + (int (pos st) - int (offset startPos))\<rparr>)
      in (\<lparr>name = name t, contents = contents t, tvalue = tvalue t,
            location = \<lparr>start = startPos, endp = getLocation st'\<rparr>\<rparr>, st'))"

definition enqueueLookahead :: "tokenizer \<Rightarrow> unlocated \<Rightarrow> position \<Rightarrow> tokenizer" where
  "enqueueLookahead st t p =
     (let (t', st') = locate st t p in st'\<lparr>lookahead := lookahead st' @ [t']\<rparr>)"

definition enqueue :: "tokenizer \<Rightarrow> unlocated \<Rightarrow> position \<Rightarrow> tokenizer" where
  "enqueue st t p =
     (let (t', st') = locate st t p;
          st'' = st'\<lparr>queue := queue st' @ [t']\<rparr>
      in if length (lookahead st'') = 0 then st''
         else st''\<lparr>queue := queue st'' @ lookahead st'', lookahead := []\<rparr>)"

section \<open>The scanners\<close>

function scanDigits_loop :: "tokenizer \<Rightarrow> tokenizer" where
  "scanDigits_loop st =
     (if pos st < length (str st) \<and> is_digit (str st ! pos st)
      then scanDigits_loop (st\<lparr>pos := pos st + 1\<rparr>) else st)"
  by pat_completeness auto
termination
  by (relation "measure (\<lambda>st. length (str st) - pos st)") auto

declare scanDigits_loop.simps [simp del]

definition scanDigits :: "tokenizer \<Rightarrow> string \<times> tokenizer" where
  "scanDigits st =
     (let startPos = pos st; st' = scanDigits_loop st
      in (slice (str st') startPos (pos st'), st'))"

function scanWhitespace_loop :: "tokenizer \<Rightarrow> tokenizer" where
  "scanWhitespace_loop st =
     (if pos st < length (str st) \<and> isWhitespace (charAt (str st) (pos st))
      then scanWhitespace_loop (st\<lparr>pos := pos st + 1\<rparr>) else st)"
  by pat_completeness auto
termination
  by (relation "measure (\<lambda>st. length (str st) - pos st)") auto

declare scanWhitespace_loop.simps [simp del]

definition scanWhitespace :: "tokenizer \<Rightarrow> string \<times> tokenizer" where
  "scanWhitespace st =
     (let startPos = pos st; st' = scanWhitespace_loop st
      in (slice (str st') startPos (pos st'), st'))"

definition scanEscape :: "tokenizer \<Rightarrow> string \<times> tokenizer" where
  "scanEscape st =
     (let st1 = st\<lparr>pos := pos st + 1\<rparr>
      in if pos st1 = length (str st1) then ([backslash], st1)
         else
           (let chr = charAt (str st1) (pos st1);
                st2 = st1\<lparr>pos := pos st1 + 1\<rparr>;
                c = (case chr of Some x \<Rightarrow> [x] | None \<Rightarrow> ''undefined'')
            in if isFormat chr \<or> chr = Some backslash then (c, st2)
               else (backslash # c, st2)))"

text \<open>
  \<open>tryScanTag\<close> and \<open>tryScanComment\<close> return before touching the state when they do not
  match: \<open>None\<close> is that return, with the tokenizer as it was.
\<close>

definition tryScanTag :: "tokenizer \<Rightarrow> ((string \<times> captures) \<times> tokenizer) option" where
  "tryScanTag st =
     (if charAt (str st) (pos st) \<noteq> Some CHR ''<'' then None
      else if pos st + 1 < length (str st)
              \<and> charAt (str st) (pos st + 1) \<noteq> Some CHR ''/''
              \<and> charAt (str st) (pos st + 1) \<noteq> Some CHR ''!''
              \<and> \<not> is_word (str st ! (pos st + 1)) then None
      else (case exec tagRegexp (drop (pos st) (str st)) of
              None \<Rightarrow> None
            | Some m \<Rightarrow> Some (m, st\<lparr>pos := pos st + length (fst m)\<rparr>)))"

definition tryScanComment :: "tokenizer \<Rightarrow> (string \<times> tokenizer) option" where
  "tryScanComment st =
     (case exec commentRegexp (drop (pos st) (str st)) of
        None \<Rightarrow> None
      | Some m \<Rightarrow> Some (fst m, st\<lparr>pos := pos st + length (fst m)\<rparr>))"

text \<open>
  \<open>tryScanId\<close> is called by the parser on a tokenizer it goes on using, so it returns the
  state it leaves behind in both cases, next to the token or \<open>null\<close>.
\<close>

definition tryScanId :: "tokenizer \<Rightarrow> token option \<times> tokenizer" where
  "tryScanId st =
     (case exec idRegexp (drop (pos st) (str st)) of
        None \<Rightarrow> (None, st)
      | Some m \<Rightarrow>
          (let start = getLocation st;
               st1 = st\<lparr>pos := pos st + length (fst m)\<rparr>
           in case locate st1 \<lparr>name = Id, contents = None, tvalue = snd m 1\<rparr> start of
                (t, st2) \<Rightarrow> (Some t, st2)))"

subsection \<open>What a match consumes\<close>

declare rmatch.simps(5,6) [simp del]

lemma rmatch_suffix:
  "sc' \<in> set (rmatch r sc) \<Longrightarrow> \<exists>p. fst sc = p @ fst sc'"
proof (induction r sc arbitrary: sc' rule: rmatch.induct)
  case (1 P sc)
  show ?case
  proof (cases "fst sc")
    case Nil
    with "1.prems" show ?thesis by simp
  next
    case (Cons x xs)
    with "1.prems" have "fst sc' = xs" by (simp split: if_splits)
    with Cons have "fst sc = [x] @ fst sc'" by simp
    then show ?thesis by blast
  qed
next
  case (2 sc)
  then show ?case by simp
next
  case (3 a b sc)
  from "3.prems" obtain m where m: "m \<in> set (rmatch a sc)" and s: "sc' \<in> set (rmatch b m)"
    by auto
  from "3.IH"(1)[OF m] obtain p where p: "fst sc = p @ fst m" by blast
  from "3.IH"(2)[OF m s] obtain q where q: "fst m = q @ fst sc'" by blast
  from p q have "fst sc = (p @ q) @ fst sc'" by simp
  then show ?case by blast
next
  case (4 a b sc)
  from "4.prems" consider "sc' \<in> set (rmatch a sc)" | "sc' \<in> set (rmatch b sc)" by auto
  then show ?case
  proof cases
    case 1
    from "4.IH"(1)[OF this] show ?thesis .
  next
    case 2
    from "4.IH"(2)[OF this] show ?thesis .
  qed
next
  case (5 a sc)
  show ?case
  proof (cases "sc' = sc")
    case True
    then show ?thesis by simp
  next
    case False
    from "5.prems" have "sc' \<in> set (concat (map (\<lambda>sc'. if length (fst sc') < length (fst sc)
        then rmatch (Star a) sc' else []) (rmatch a (fst sc, clear (groups a) (snd sc))))) \<or> sc' = sc"
      by (subst (asm) rmatch.simps(5)) auto
    with False obtain m where m: "m \<in> set (rmatch a (fst sc, clear (groups a) (snd sc)))"
      and l: "length (fst m) < length (fst sc)" and s: "sc' \<in> set (rmatch (Star a) m)"
      by (auto split: if_splits)
    from "5.IH"(1)[OF m] obtain p where p: "fst sc = p @ fst m" by auto
    from "5.IH"(2)[OF m l s] obtain q where q: "fst m = q @ fst sc'" by blast
    from p q have "fst sc = (p @ q) @ fst sc'" by simp
    then show ?thesis by blast
  qed
next
  case (6 a sc)
  show ?case
  proof (cases "sc' = sc")
    case True
    then show ?thesis by simp
  next
    case False
    from "6.prems" have "sc' \<in> set (concat (map (\<lambda>sc'. if length (fst sc') < length (fst sc)
        then rmatch (LazyStar a) sc' else []) (rmatch a (fst sc, clear (groups a) (snd sc))))) \<or> sc' = sc"
      by (subst (asm) rmatch.simps(6)) auto
    with False obtain m where m: "m \<in> set (rmatch a (fst sc, clear (groups a) (snd sc)))"
      and l: "length (fst m) < length (fst sc)" and s: "sc' \<in> set (rmatch (LazyStar a) m)"
      by (auto split: if_splits)
    from "6.IH"(1)[OF m] obtain p where p: "fst sc = p @ fst m" by auto
    from "6.IH"(2)[OF m l s] obtain q where q: "fst m = q @ fst sc'" by blast
    from p q have "fst sc = (p @ q) @ fst sc'" by simp
    then show ?thesis by blast
  qed
next
  case (7 i a sc)
  from "7.prems" obtain m where m: "m \<in> set (rmatch a sc)" and f: "fst sc' = fst m"
    by auto
  from "7.IH"[OF m] f show ?case by simp
qed

lemma rmatch_first_char:
  assumes "sc' \<in> set (rmatch (seqs (Lit c # rs)) sc)"
  shows "\<exists>p. fst sc = (c # p) @ fst sc'"
proof -
  from assms obtain m where m: "m \<in> set (rmatch (Lit c) sc)" and s: "sc' \<in> set (rmatch (seqs rs) m)"
    by (auto simp: seqs_def)
  from m have "fst sc = c # fst m"
    by (auto simp: Lit_def split: list.splits if_splits)
  moreover from rmatch_suffix[OF s] obtain q where "fst m = q @ fst sc'" by blast
  ultimately show ?thesis by simp
qed

lemma exec_prefix:
  assumes "exec r s = Some m"
  shows "\<exists>rest. s = fst m @ rest"
proof -
  from assms obtain sc scs where r: "rmatch r (s, (\<lambda>i. None)) = sc # scs"
    and m: "m = (take (length s - length (fst sc)) s, snd sc)"
    by (auto simp: exec_def split: list.splits)
  from r have "sc \<in> set (rmatch r (s, (\<lambda>i. None)))" by simp
  from rmatch_suffix[OF this] obtain p where "s = p @ fst sc" by auto
  with m show ?thesis by auto
qed

lemma exec_first_char:
  assumes "exec (seqs (Lit c # rs)) s = Some m"
  shows "\<exists>p. fst m = c # p"
proof -
  from assms obtain sc scs where r: "rmatch (seqs (Lit c # rs)) (s, (\<lambda>i. None)) = sc # scs"
    and m: "m = (take (length s - length (fst sc)) s, snd sc)"
    by (auto simp: exec_def split: list.splits)
  from r have "sc \<in> set (rmatch (seqs (Lit c # rs)) (s, (\<lambda>i. None)))" by simp
  from rmatch_first_char[OF this] obtain p where "s = (c # p) @ fst sc" by auto
  with m show ?thesis by auto
qed

lemma tryScanTag_frame:
  assumes "tryScanTag st = Some (tag, st')"
  shows "st' = st\<lparr>pos := pos st + length (fst tag)\<rparr>"
    and "\<exists>p. fst tag = CHR ''<'' # p"
    and "\<exists>rest. drop (pos st) (str st) = fst tag @ rest"
    and "exec tagRegexp (drop (pos st) (str st)) = Some tag"
proof -
  from assms have e: "exec tagRegexp (drop (pos st) (str st)) = Some tag"
    and s: "st' = st\<lparr>pos := pos st + length (fst tag)\<rparr>"
    by (auto simp: tryScanTag_def split: if_splits option.splits)
  show "st' = st\<lparr>pos := pos st + length (fst tag)\<rparr>" by (rule s)
  show "exec tagRegexp (drop (pos st) (str st)) = Some tag" by (rule e)
  show "\<exists>rest. drop (pos st) (str st) = fst tag @ rest" by (rule exec_prefix[OF e])
  show "\<exists>p. fst tag = CHR ''<'' # p"
    by (rule exec_first_char[OF e[unfolded tagRegexp_def]])
qed

lemma tryScanComment_frame:
  assumes "tryScanComment st = Some (c, st')"
  shows "st' = st\<lparr>pos := pos st + length c\<rparr>"
    and "\<exists>p. c = CHR ''<'' # p"
    and "\<exists>rest. drop (pos st) (str st) = c @ rest"
proof -
  from assms obtain m where e: "exec commentRegexp (drop (pos st) (str st)) = Some m"
    and c: "c = fst m" and s: "st' = st\<lparr>pos := pos st + length c\<rparr>"
    by (auto simp: tryScanComment_def split: option.splits)
  show "st' = st\<lparr>pos := pos st + length c\<rparr>" by (rule s)
  show "\<exists>rest. drop (pos st) (str st) = c @ rest" using exec_prefix[OF e] c by simp
  show "\<exists>p. c = CHR ''<'' # p"
    using exec_first_char[OF e[unfolded commentRegexp_def]] c by simp
qed

subsection \<open>Opaque elements and plain text\<close>

text \<open>
  The test \<open>opaqueTags.has(tag[1]) && tag[2] !== '/'\<close> of the three places that find a
  tag; when it holds, \<open>tag[1]\<close> is the name handed to \<open>scanToEndTag\<close>.
\<close>

definition opaqueName :: "string \<times> captures \<Rightarrow> string option" where
  "opaqueName tag =
     (case snd tag 1 of
        None \<Rightarrow> None
      | Some n \<Rightarrow> if n \<in> opaqueTags \<and> snd tag 2 \<noteq> Some ''/'' then Some n else None)"

lemma tryScanTag_measure:
  assumes "tryScanTag st = Some (tag, st')" and "pos st < length (str st)"
  shows "length (str st') - pos st' < length (str st) - pos st"
  using tryScanTag_frame(1,2)[OF assms(1)] assms(2) by auto

function scanToEndTag_loop :: "string \<Rightarrow> tokenizer \<Rightarrow> tokenizer" where
  "scanToEndTag_loop endTag st =
     (if pos st < length (str st) then
        (case tryScanTag st of
           Some (tag, st') \<Rightarrow>
             if snd tag 1 = Some endTag \<and> charAt (fst tag) 1 = Some CHR ''/'' then st'
             else scanToEndTag_loop endTag st'
         | None \<Rightarrow> scanToEndTag_loop endTag (st\<lparr>pos := pos st + 1\<rparr>))
      else st)"
  by pat_completeness auto
termination
proof (relation "measure (\<lambda>(e, st). length (str st) - pos st)", goal_cases)
  case 1
  show ?case by simp
next
  case (2 endTag st)
  then show ?case by auto
next
  case (3 endTag st x2 tag st')
  then have "tryScanTag st = Some (tag, st')" by simp
  from tryScanTag_measure[OF this] 3(1) show ?case by simp
qed

declare scanToEndTag_loop.simps [simp del]

definition scanToEndTag :: "string \<Rightarrow> tokenizer \<Rightarrow> string \<times> tokenizer" where
  "scanToEndTag endTag st =
     (let start = pos st; st' = scanToEndTag_loop endTag st
      in (slice (str st') start (pos st'), st'))"

lemma scanEscape_frame:
  assumes "scanEscape st = (e, st')"
  shows "st' = st\<lparr>pos := pos st'\<rparr>" and "pos st < pos st'" and "str st' = str st"
  using assms by (auto simp: scanEscape_def Let_def split: if_splits)

lemma scanEscape_measure:
  assumes "scanEscape st = (e, st')" and "pos st < length (str st)"
  shows "length (str st') - pos st' < length (str st) - pos st"
proof -
  from scanEscape_frame(2,3)[OF assms(1)] assms(2) show ?thesis by simp
qed

function scanChars_loop :: "tokenizer \<Rightarrow> string \<Rightarrow> string \<times> tokenizer" where
  "scanChars_loop st out =
     (if pos st < length (str st) then
        (let start = getLocation st; chr = charAt (str st) (pos st)
         in if chr = Some backslash then
              (case scanEscape st of (e, st') \<Rightarrow> scanChars_loop st' (out @ e))
            else if isChars chr then
              scanChars_loop (st\<lparr>pos := pos st + 1\<rparr>) (out @ [str st ! pos st])
            else if chr = Some CHR ''<'' then
              (case tryScanTag st of
                 Some (tag, st1) \<Rightarrow>
                   (case opaqueName tag of
                      Some n \<Rightarrow>
                        (case scanToEndTag n st1 of (rest, st2) \<Rightarrow>
                           (out, enqueueLookahead st2 (tok OpaqueTag (fst tag @ rest)) start))
                    | None \<Rightarrow> (out, enqueueLookahead st1 (tok Tag (fst tag)) start))
               | None \<Rightarrow>
                   (case tryScanComment st of
                      Some (comment, st1) \<Rightarrow>
                        (out, enqueueLookahead st1 (tok Comment comment) start)
                    | None \<Rightarrow>
                        scanChars_loop (st\<lparr>pos := pos st + 1\<rparr>) (out @ [str st ! pos st])))
            else (out, st))
      else (out, st))"
  by pat_completeness auto
termination
proof (relation "measure (\<lambda>(st, out). length (str st) - pos st)", goal_cases)
  case 1
  show ?case by simp
next
  case (2 st out start chr e st')
  from 2(5) have "scanEscape st = (e, st')" by simp
  from scanEscape_measure[OF this 2(1)] show ?case by simp
next
  case 3
  then show ?case by auto
next
  case 4
  then show ?case by auto
qed

declare scanChars_loop.simps [simp del]

definition scanChars :: "tokenizer \<Rightarrow> string \<times> tokenizer" where
  "scanChars st = scanChars_loop st []"

section \<open>matchToken\<close>

text \<open>
  Every path through the body of the \<open>while (true)\<close> of \<open>matchToken\<close> ends in a
  \<open>return\<close> or in \<open>raise\<close>, so the body runs once.  It is written in two parts: the
  branch taken at a line start, which returns or falls through to the dispatch on the
  next character, and that dispatch.
\<close>

datatype outcome = Returned tokenizer | FallThrough tokenizer

definition raise :: "string \<Rightarrow> position \<Rightarrow> error" where
  "raise message p = SyntaxError message p"

definition lineStart :: "tokenizer \<Rightarrow> outcome" where
  "lineStart st0 =
     (let st = st0\<lparr>newline := False\<rparr>;
          start = getLocation st
      in case scanWhitespace st of (ws, st1) \<Rightarrow>
        if pos st1 \<ge> length (str st1) then
          (if length ws > 0 then Returned (enqueue st1 (tok Whitespace ws) start)
           else FallThrough st1)
        else if is_digit (str st1 ! pos st1) then
          (case scanDigits st1 of (digits, st2) \<Rightarrow>
             if charAt (str st2) (pos st2) = Some CHR ''.''
                \<and> charAt (str st2) (pos st2 + 1) = Some CHR '' '' then
               Returned (enqueue (st2\<lparr>pos := pos st2 + 2\<rparr>) (tok Ol (ws @ digits @ ''. '')) start)
             else
               (let st3 = (if length ws > 0 then enqueue st2 (tok Whitespace ws) start else st2)
                in case scanChars st3 of (chars, st4) \<Rightarrow>
                     Returned (enqueue st4 (tok Text (digits @ chars)) start)))
        else if charAt (str st1) (pos st1) = Some CHR ''*''
                \<and> charAt (str st1) (pos st1 + 1) = Some CHR '' '' then
          Returned (enqueue (st1\<lparr>pos := pos st1 + 2\<rparr>) (tok Ul (ws @ ''* '')) start)
        else if charAt (str st1) (pos st1) = Some CHR ''<'' then
          (case tryScanTag st1 of
             Some (tag, st2) \<Rightarrow>
               (case opaqueName tag of
                  Some n \<Rightarrow>
                    (case scanToEndTag n st2 of (rest, st3) \<Rightarrow>
                       Returned (enqueue st3 (tok OpaqueTag (ws @ fst tag @ rest)) start))
                | None \<Rightarrow>
                    (let st3 = (if length ws > 0 then enqueue st2 (tok Whitespace ws) start else st2)
                     in Returned (enqueue st3 (tok Tag (fst tag)) start)))
           | None \<Rightarrow>
               (case tryScanComment st1 of
                  Some (comment, st2) \<Rightarrow>
                    Returned (enqueue st2 (tok Comment (ws @ comment)) start)
                | None \<Rightarrow> FallThrough st1))
        else if length ws > 0 then Returned (enqueue st1 (tok Whitespace ws) start)
        else FallThrough st1)"

function newline_loop :: "string \<Rightarrow> nat \<Rightarrow> nat" where
  "newline_loop s nextPos =
     (if nextPos < length s \<and> s ! nextPos = CHR ''\<newline>'' then newline_loop s (nextPos + 1)
      else nextPos)"
  by pat_completeness auto
termination
  by (relation "measure (\<lambda>(s, n). length s - n)") auto

declare newline_loop.simps [simp del]

definition textFallback :: "tokenizer \<Rightarrow> position \<Rightarrow> tokenizer" where
  "textFallback st startPos =
     (case scanChars st of (chars, st1) \<Rightarrow> enqueue st1 (tok Text chars) startPos)"

definition dispatch :: "tokenizer \<Rightarrow> error + tokenizer" where
  "dispatch st =
     (let start = getLocation st;
          chr = charAt (str st) (pos st);
          c = (case chr of Some x \<Rightarrow> [x] | None \<Rightarrow> ''undefined'')
      in if chr = Some CHR ''*'' then Inr (enqueue (st\<lparr>pos := pos st + 1\<rparr>) (tok Star_tok c) start)
         else if chr = Some CHR ''_'' then Inr (enqueue (st\<lparr>pos := pos st + 1\<rparr>) (tok Underscore c) start)
         else if chr = Some CHR ''`'' then Inr (enqueue (st\<lparr>pos := pos st + 1\<rparr>) (tok Tick c) start)
         else if chr = Some CHR ''|'' then Inr (enqueue (st\<lparr>pos := pos st + 1\<rparr>) (tok Pipe c) start)
         else if chr = Some CHR ''~'' then Inr (enqueue (st\<lparr>pos := pos st + 1\<rparr>) (tok Tilde c) start)
         else if chr = Some CHR ''\<newline>'' then
           (let st1 = st\<lparr>newline := True\<rparr>;
                p = pos st1;
                nextPos = newline_loop (str st1) (p + 1);
                st2 = st1\<lparr>pos := nextPos\<rparr>
            in if nextPos = p + 1 then Inr (enqueue st2 (tok Linebreak ''\<newline>'') start)
               else Inr (enqueue st2 (tok Parabreak (slice (str st2) p nextPos)) start))
         else if isWhitespace chr then
           (case scanWhitespace st of (ws, st1) \<Rightarrow> Inr (enqueue st1 (tok Whitespace ws) start))
         else if isChars chr then
           (case scanChars st of (chars, st1) \<Rightarrow> Inr (enqueue st1 (tok Text chars) start))
         else if chr = Some CHR ''<'' then
           (if charAt (str st) (pos st + 1) = Some CHR ''!''
               \<and> charAt (str st) (pos st + 2) = Some CHR ''-''
               \<and> charAt (str st) (pos st + 3) = Some CHR ''-'' then
              (case tryScanComment st of
                 Some (comment, st1) \<Rightarrow> Inr (enqueue st1 (tok Comment comment) start)
               | None \<Rightarrow> Inr (textFallback st start))
            else
              (case tryScanTag st of
                 Some (tag, st1) \<Rightarrow>
                   (case opaqueName tag of
                      Some n \<Rightarrow>
                        (case scanToEndTag n st1 of (rest, st2) \<Rightarrow>
                           Inr (enqueue st2 (tok OpaqueTag (fst tag @ rest)) start))
                    | None \<Rightarrow> Inr (enqueue st1 (tok Tag (fst tag)) start))
               | None \<Rightarrow> Inr (textFallback st start)))
         else Inl (raise (''Unexpected token '' @ c) start))"

definition matchToken :: "tokenizer \<Rightarrow> error + tokenizer" where
  "matchToken st =
     (if pos st = length (str st) then
        (let st1 = st\<lparr>eof := True\<rparr>
         in Inr (enqueue st1 \<lparr>name = EOF, contents = None, tvalue = None\<rparr> (getLocation st1)))
      else if newline st then
        (case lineStart st of Returned st' \<Rightarrow> Inr st' | FallThrough st' \<Rightarrow> dispatch st')
      else dispatch st)"

section \<open>Properties of the scanners\<close>

subsection \<open>The simple loops in closed form\<close>

lemma takeWhile_drop_step:
  assumes "p < length s" and "P (s ! p)"
  shows "length (takeWhile P (drop p s)) = Suc (length (takeWhile P (drop (Suc p) s)))"
proof -
  from assms(1) have "drop p s = s ! p # drop (Suc p) s" by (simp add: Cons_nth_drop_Suc)
  with assms(2) show ?thesis by simp
qed

lemma takeWhile_drop_stop:
  assumes "\<not> (p < length s \<and> P (s ! p))"
  shows "takeWhile P (drop p s) = []"
proof (cases "p < length s")
  case True
  then have "drop p s = s ! p # drop (Suc p) s" by (simp add: Cons_nth_drop_Suc)
  with assms True show ?thesis by simp
next
  case False
  then show ?thesis by simp
qed

lemma scanWhitespace_loop_eq:
  "scanWhitespace_loop st =
     st\<lparr>pos := pos st + length (takeWhile (\<lambda>c. isWhitespace (Some c)) (drop (pos st) (str st)))\<rparr>"
proof (induction st rule: scanWhitespace_loop.induct)
  case (1 st)
  show ?case
  proof (cases "pos st < length (str st) \<and> isWhitespace (charAt (str st) (pos st))")
    case True
    then have P: "isWhitespace (Some (str st ! pos st))" by (auto simp: charAt_def)
    from True have "scanWhitespace_loop st = scanWhitespace_loop (st\<lparr>pos := pos st + 1\<rparr>)"
      by (subst scanWhitespace_loop.simps) simp
    also have "\<dots> = st\<lparr>pos := pos st + 1 + length (takeWhile (\<lambda>c. isWhitespace (Some c))
        (drop (pos st + 1) (str st)))\<rparr>"
      using "1.IH"[OF True] by simp
    finally show ?thesis
      using takeWhile_drop_step[of "pos st" "str st" "\<lambda>c. isWhitespace (Some c)"] True P by simp
  next
    case False
    then have "scanWhitespace_loop st = st" by (subst scanWhitespace_loop.simps) (simp only: if_False)
    moreover from False have "takeWhile (\<lambda>c. isWhitespace (Some c)) (drop (pos st) (str st)) = []"
      by (intro takeWhile_drop_stop) (auto simp: charAt_def)
    ultimately show ?thesis by simp
  qed
qed

lemma scanDigits_loop_eq:
  "scanDigits_loop st =
     st\<lparr>pos := pos st + length (takeWhile is_digit (drop (pos st) (str st)))\<rparr>"
proof (induction st rule: scanDigits_loop.induct)
  case (1 st)
  show ?case
  proof (cases "pos st < length (str st) \<and> is_digit (str st ! pos st)")
    case True
    from True have "scanDigits_loop st = scanDigits_loop (st\<lparr>pos := pos st + 1\<rparr>)"
      by (subst scanDigits_loop.simps) simp
    also have "\<dots> = st\<lparr>pos := pos st + 1 + length (takeWhile is_digit
        (drop (pos st + 1) (str st)))\<rparr>"
      using "1.IH"[OF True] by simp
    finally show ?thesis
      using takeWhile_drop_step[of "pos st" "str st" is_digit] True by simp
  next
    case False
    then have "scanDigits_loop st = st" by (subst scanDigits_loop.simps) (simp only: if_False)
    moreover from False have "takeWhile is_digit (drop (pos st) (str st)) = []"
      by (intro takeWhile_drop_stop) auto
    ultimately show ?thesis by simp
  qed
qed

lemma take_length_takeWhile: "take (length (takeWhile P xs)) xs = takeWhile P xs"
  by (induction xs) auto

lemma scanWhitespace_eq:
  "scanWhitespace st =
     (takeWhile (\<lambda>c. isWhitespace (Some c)) (drop (pos st) (str st)),
      st\<lparr>pos := pos st + length (takeWhile (\<lambda>c. isWhitespace (Some c)) (drop (pos st) (str st)))\<rparr>)"
  by (simp add: scanWhitespace_def scanWhitespace_loop_eq slice_def take_length_takeWhile Let_def)

lemma scanDigits_eq:
  "scanDigits st =
     (takeWhile is_digit (drop (pos st) (str st)),
      st\<lparr>pos := pos st + length (takeWhile is_digit (drop (pos st) (str st)))\<rparr>)"
  by (simp add: scanDigits_def scanDigits_loop_eq slice_def take_length_takeWhile Let_def)

lemma newline_loop_eq:
  "newline_loop s p = p + length (takeWhile (\<lambda>c. c = CHR ''\<newline>'') (drop p s))"
proof (induction s p rule: newline_loop.induct)
  case (1 s p)
  show ?case
  proof (cases "p < length s \<and> s ! p = CHR ''\<newline>''")
    case True
    then have "newline_loop s p = newline_loop s (p + 1)"
      by (subst newline_loop.simps) simp
    with "1.IH"[OF True] takeWhile_drop_step[of p s "\<lambda>c. c = CHR ''\<newline>''"] True
    show ?thesis by simp
  next
    case False
    then have "newline_loop s p = p" by (subst newline_loop.simps) (simp only: if_False)
    moreover from False have "takeWhile (\<lambda>c. c = CHR ''\<newline>'') (drop p s) = []"
      by (intro takeWhile_drop_stop) auto
    ultimately show ?thesis by simp
  qed
qed

subsection \<open>The queue and \<open>previous\<close> do not steer the scan\<close>

text \<open>
  No scanner reads \<open>queue\<close> or \<open>previous\<close>, and \<open>enqueue\<close> only appends: putting
  tokens in front of the queue, or changing \<open>previous\<close>, commutes with every scanner.
\<close>

definition frame :: "token list \<Rightarrow> token option \<Rightarrow> tokenizer \<Rightarrow> tokenizer" where
  "frame q pv st = st\<lparr>queue := q @ queue st, previous := pv\<rparr>"

lemma frame_sel [simp]:
  "str (frame q pv st) = str st"
  "pos (frame q pv st) = pos st"
  "eof (frame q pv st) = eof st"
  "newline (frame q pv st) = newline st"
  "lookahead (frame q pv st) = lookahead st"
  "tline (frame q pv st) = tline st"
  "tcolumn (frame q pv st) = tcolumn st"
  "queue (frame q pv st) = q @ queue st"
  "previous (frame q pv st) = pv"
  by (simp_all add: frame_def)

lemma frame_upd [simp]:
  "(frame q pv st)\<lparr>pos := p\<rparr> = frame q pv (st\<lparr>pos := p\<rparr>)"
  "(frame q pv st)\<lparr>eof := e\<rparr> = frame q pv (st\<lparr>eof := e\<rparr>)"
  "(frame q pv st)\<lparr>newline := n\<rparr> = frame q pv (st\<lparr>newline := n\<rparr>)"
  "(frame q pv st)\<lparr>tline := l\<rparr> = frame q pv (st\<lparr>tline := l\<rparr>)"
  "(frame q pv st)\<lparr>tcolumn := c\<rparr> = frame q pv (st\<lparr>tcolumn := c\<rparr>)"
  "(frame q pv st)\<lparr>lookahead := la\<rparr> = frame q pv (st\<lparr>lookahead := la\<rparr>)"
  "(frame q pv st)\<lparr>queue := q @ x\<rparr> = frame q pv (st\<lparr>queue := x\<rparr>)"
  by (simp_all add: frame_def)

lemma getLocation_frame [simp]: "getLocation (frame q pv st) = getLocation st"
  by (simp add: getLocation_def)

lemma locate_frame [simp]:
  "locate (frame q pv st) t p = (fst (locate st t p), frame q pv (snd (locate st t p)))"
  by (simp add: locate_def Let_def)

lemma enqueueLookahead_frame [simp]:
  "enqueueLookahead (frame q pv st) t p = frame q pv (enqueueLookahead st t p)"
  by (simp add: enqueueLookahead_def split_beta)

lemma enqueue_frame [simp]:
  "enqueue (frame q pv st) t p = frame q pv (enqueue st t p)"
  by (simp add: enqueue_def split_beta Let_def)

lemma scanWhitespace_frame [simp]:
  "scanWhitespace (frame q pv st) = (fst (scanWhitespace st), frame q pv (snd (scanWhitespace st)))"
  by (simp add: scanWhitespace_eq)

lemma scanDigits_frame [simp]:
  "scanDigits (frame q pv st) = (fst (scanDigits st), frame q pv (snd (scanDigits st)))"
  by (simp add: scanDigits_eq)

lemma scanEscape_frame' [simp]:
  "scanEscape (frame q pv st) = (fst (scanEscape st), frame q pv (snd (scanEscape st)))"
  by (simp add: scanEscape_def Let_def)

lemma tryScanTag_frame' [simp]:
  "tryScanTag (frame q pv st) = map_option (\<lambda>(m, s). (m, frame q pv s)) (tryScanTag st)"
  by (simp add: tryScanTag_def split: option.splits)

lemma tryScanComment_frame' [simp]:
  "tryScanComment (frame q pv st) = map_option (\<lambda>(m, s). (m, frame q pv s)) (tryScanComment st)"
  by (simp add: tryScanComment_def split: option.splits)

lemma scanToEndTag_loop_frame [simp]:
  "scanToEndTag_loop e (frame q pv st) = frame q pv (scanToEndTag_loop e st)"
proof (induction e st rule: scanToEndTag_loop.induct)
  case (1 endTag st)
  note L = scanToEndTag_loop.simps[of endTag "frame q pv st"]
  note R = scanToEndTag_loop.simps[of endTag st]
  show ?case
  proof (cases "pos st < length (str st)")
    case False
    then show ?thesis by (simp add: L R)
  next
    case True
    show ?thesis
    proof (cases "tryScanTag st")
      case None
      with True "1.IH"(1)[OF True None] show ?thesis by (simp add: L R)
    next
      case (Some a)
      obtain tag st' where a: "a = (tag, st')" by (cases a)
      with True Some "1.IH"(2)[OF True Some a[symmetric]] show ?thesis by (simp add: L R)
    qed
  qed
qed

lemma scanToEndTag_frame [simp]:
  "scanToEndTag e (frame q pv st) = (fst (scanToEndTag e st), frame q pv (snd (scanToEndTag e st)))"
  by (simp add: scanToEndTag_def Let_def)

lemma scanChars_loop_frame [simp]:
  "scanChars_loop (frame q pv st) out =
     (fst (scanChars_loop st out), frame q pv (snd (scanChars_loop st out)))"
proof (induction st out rule: scanChars_loop.induct)
  case (1 st out)
  note L = scanChars_loop.simps[of "frame q pv st" out]
  note R = scanChars_loop.simps[of st out]
  show ?case
  proof (cases "pos st < length (str st)")
    case False
    then show ?thesis by (simp add: L R)
  next
    case True
    note lt = True
    show ?thesis
    proof (cases "charAt (str st) (pos st) = Some backslash")
      case True
      obtain e st' where e: "scanEscape st = (e, st')" by (cases "scanEscape st")
      from "1.IH"(1)[OF lt refl refl True e[symmetric]] lt True e
      show ?thesis by (simp add: L R)
    next
      case False
      note nb = False
      show ?thesis
      proof (cases "isChars (charAt (str st) (pos st))")
        case True
        from "1.IH"(2)[OF lt refl refl nb True] lt nb True
        show ?thesis by (simp add: L R)
      next
        case False
        note nc = False
        show ?thesis
        proof (cases "charAt (str st) (pos st) = Some CHR ''<''")
          case False
          with lt nb nc show ?thesis by (simp add: L R)
        next
          case True
          show ?thesis
          proof (cases "tryScanTag st")
            case (Some a)
            with lt nb nc True show ?thesis
              by (simp add: L R Let_def split_beta split: option.splits)
          next
            case None
            note nt = None
            show ?thesis
            proof (cases "tryScanComment st")
              case (Some a)
              with lt nb nc True nt show ?thesis
                by (simp add: L R Let_def split_beta split: option.splits)
            next
              case None
              from "1.IH"(3)[OF lt refl refl nb nc True nt None] lt nb nc True nt None
              show ?thesis by (simp add: L R)
            qed
          qed
        qed
      qed
    qed
  qed
qed

lemma scanChars_frame [simp]:
  "scanChars (frame q pv st) = (fst (scanChars st), frame q pv (snd (scanChars st)))"
  by (simp add: scanChars_def)

lemma lineStart_frame [simp]:
  "lineStart (frame q pv st) =
     (case lineStart st of Returned s \<Rightarrow> Returned (frame q pv s)
                         | FallThrough s \<Rightarrow> FallThrough (frame q pv s))"
  by (simp add: lineStart_def Let_def split_beta split: option.splits)

lemma textFallback_frame [simp]:
  "textFallback (frame q pv st) p = frame q pv (textFallback st p)"
  by (simp add: textFallback_def split_beta)

lemma dispatch_frame [simp]:
  "dispatch (frame q pv st) = map_sum id (frame q pv) (dispatch st)"
  by (simp add: dispatch_def Let_def split_beta split: option.splits)

lemma matchToken_frame:
  "matchToken (frame q pv st) = map_sum id (frame q pv) (matchToken st)"
  by (simp add: matchToken_def Let_def split: outcome.splits)

subsection \<open>What each operation leaves alone\<close>

lemma locate_sel [simp]:
  "str (snd (locate st t p)) = str st"
  "pos (snd (locate st t p)) = pos st"
  "eof (snd (locate st t p)) = eof st"
  "queue (snd (locate st t p)) = queue st"
  "newline (snd (locate st t p)) = newline st"
  "lookahead (snd (locate st t p)) = lookahead st"
  "previous (snd (locate st t p)) = previous st"
  "name (fst (locate st t p)) = name t"
  "contents (fst (locate st t p)) = contents t"
  "tvalue (fst (locate st t p)) = tvalue t"
  "start (location (fst (locate st t p))) = p"
  "endp (location (fst (locate st t p))) = getLocation (snd (locate st t p))"
  by (simp_all add: locate_def Let_def)

lemma locate_line:
  "tline (snd (locate st t p)) =
     (if name t = Linebreak then tline st + 1
      else if name t = Parabreak then tline st + length (case contents t of Some c \<Rightarrow> c | None \<Rightarrow> [])
      else tline st)"
  "tcolumn (snd (locate st t p)) =
     (if name t = Linebreak \<or> name t = Parabreak then 1
      else tcolumn st + (int (pos st) - int (offset p)))"
  by (simp_all add: locate_def Let_def)

lemma getLocation_sel [simp]:
  "offset (getLocation st) = pos st"
  "line (getLocation st) = tline st"
  "column (getLocation st) = tcolumn st"
  by (simp_all add: getLocation_def)

lemma tok_sel [simp]:
  "name (tok n c) = n" "contents (tok n c) = Some c" "tvalue (tok n c) = None"
  by (simp_all add: tok_def)

lemma enqueue_sel [simp]:
  "str (enqueue st t p) = str st"
  "pos (enqueue st t p) = pos st"
  "eof (enqueue st t p) = eof st"
  "newline (enqueue st t p) = newline st"
  "previous (enqueue st t p) = previous st"
  "lookahead (enqueue st t p) = []"
  "queue (enqueue st t p) = queue st @ fst (locate st t p) # lookahead st"
  "tline (enqueue st t p) = tline (snd (locate st t p))"
  "tcolumn (enqueue st t p) = tcolumn (snd (locate st t p))"
  by (simp_all add: enqueue_def Let_def split_beta)

lemma enqueueLookahead_sel [simp]:
  "str (enqueueLookahead st t p) = str st"
  "pos (enqueueLookahead st t p) = pos st"
  "eof (enqueueLookahead st t p) = eof st"
  "newline (enqueueLookahead st t p) = newline st"
  "previous (enqueueLookahead st t p) = previous st"
  "queue (enqueueLookahead st t p) = queue st"
  "lookahead (enqueueLookahead st t p) = lookahead st @ [fst (locate st t p)]"
  "tline (enqueueLookahead st t p) = tline (snd (locate st t p))"
  "tcolumn (enqueueLookahead st t p) = tcolumn (snd (locate st t p))"
  by (simp_all add: enqueueLookahead_def Let_def split_beta)

lemma scanToEndTag_loop_only_pos:
  "scanToEndTag_loop e st = st\<lparr>pos := pos (scanToEndTag_loop e st)\<rparr>"
proof (induction e st rule: scanToEndTag_loop.induct)
  case (1 endTag st)
  note R = scanToEndTag_loop.simps[of endTag st]
  show ?case
  proof (cases "pos st < length (str st)")
    case False
    then show ?thesis by (simp add: R)
  next
    case True
    show ?thesis
    proof (cases "tryScanTag st")
      case None
      from "1.IH"(1)[OF True None] have
        "scanToEndTag_loop endTag (st\<lparr>pos := pos st + 1\<rparr>) =
           st\<lparr>pos := pos (scanToEndTag_loop endTag (st\<lparr>pos := pos st + 1\<rparr>))\<rparr>"
        by simp
      with True None show ?thesis by (simp add: R)
    next
      case (Some a)
      obtain tag st' where a: "a = (tag, st')" by (cases a)
      from tryScanTag_frame(1)[OF Some[unfolded a]]
      have s: "st' = st\<lparr>pos := pos st + length (fst tag)\<rparr>" .
      show ?thesis
      proof (cases "snd tag 1 = Some endTag \<and> charAt (fst tag) 1 = Some CHR ''/''")
        case True
        with \<open>pos st < length (str st)\<close> Some a s show ?thesis by (simp add: R)
      next
        case False
        from "1.IH"(2)[OF \<open>pos st < length (str st)\<close> Some a[symmetric] False]
        have "scanToEndTag_loop endTag st' = st'\<lparr>pos := pos (scanToEndTag_loop endTag st')\<rparr>" .
        then have "scanToEndTag_loop endTag st' = st\<lparr>pos := pos (scanToEndTag_loop endTag st')\<rparr>"
          by (subst (asm) (3) s) simp
        with \<open>pos st < length (str st)\<close> Some a False show ?thesis by (auto simp: R)
      qed
    qed
  qed
qed

lemma scanToEndTag_loop_mono:
  "pos st \<le> pos (scanToEndTag_loop e st)"
proof (induction e st rule: scanToEndTag_loop.induct)
  case (1 endTag st)
  note R = scanToEndTag_loop.simps[of endTag st]
  show ?case
  proof (cases "pos st < length (str st)")
    case False
    then show ?thesis by (simp add: R)
  next
    case True
    show ?thesis
    proof (cases "tryScanTag st")
      case None
      from "1.IH"(1)[OF True None] True None show ?thesis by (simp add: R)
    next
      case (Some a)
      obtain tag st' where a: "a = (tag, st')" by (cases a)
      from tryScanTag_frame(1)[OF Some[unfolded a]]
      have s: "pos st' = pos st + length (fst tag)" by simp
      show ?thesis
      proof (cases "snd tag 1 = Some endTag \<and> charAt (fst tag) 1 = Some CHR ''/''")
        case True
        with \<open>pos st < length (str st)\<close> Some a s show ?thesis by (simp add: R)
      next
        case False
        from "1.IH"(2)[OF \<open>pos st < length (str st)\<close> Some a[symmetric] False] s
        have "pos st \<le> pos (scanToEndTag_loop endTag st')" by simp
        with \<open>pos st < length (str st)\<close> Some a False show ?thesis by (auto simp: R)
      qed
    qed
  qed
qed

lemma tryScanTag_bound:
  assumes "tryScanTag st = Some (tag, st')"
  shows "pos st' \<le> length (str st)" and "str st' = str st" and "pos st' = pos st + length (fst tag)"
proof -
  from tryScanTag_frame(1)[OF assms] show p: "pos st' = pos st + length (fst tag)" 
    and "str st' = str st" by simp_all
  from tryScanTag_frame(3)[OF assms] obtain rest where "drop (pos st) (str st) = fst tag @ rest" ..
  then have "length (drop (pos st) (str st)) = length (fst tag) + length rest" by simp
  moreover from assms have "pos st < length (str st)"
    by (auto simp: tryScanTag_def charAt_def split: if_splits)
  ultimately show "pos st' \<le> length (str st)" using p by simp
qed

lemma scanToEndTag_loop_bound:
  "pos st \<le> length (str st) \<Longrightarrow> pos (scanToEndTag_loop e st) \<le> length (str st)"
proof (induction e st rule: scanToEndTag_loop.induct)
  case (1 endTag st)
  note R = scanToEndTag_loop.simps[of endTag st]
  show ?case
  proof (cases "pos st < length (str st)")
    case False
    with "1.prems" show ?thesis by (simp add: R)
  next
    case True
    show ?thesis
    proof (cases "tryScanTag st")
      case None
      from "1.IH"(1)[OF True None] True None show ?thesis by (simp add: R)
    next
      case (Some a)
      obtain tag st' where a: "a = (tag, st')" by (cases a)
      note b = tryScanTag_bound[OF Some[unfolded a]]
      show ?thesis
      proof (cases "snd tag 1 = Some endTag \<and> charAt (fst tag) 1 = Some CHR ''/''")
        case True
        with \<open>pos st < length (str st)\<close> Some a b show ?thesis by (simp add: R)
      next
        case False
        from "1.IH"(2)[OF \<open>pos st < length (str st)\<close> Some a[symmetric] False] b
        have "pos (scanToEndTag_loop endTag st') \<le> length (str st)" by simp
        with \<open>pos st < length (str st)\<close> Some a False show ?thesis by (auto simp: R)
      qed
    qed
  qed
qed

subsection \<open>A tag or a comment is at least two characters\<close>

lemma rmatch_le:
  "sc' \<in> set (rmatch r sc) \<Longrightarrow> length (fst sc') \<le> length (fst sc)"
  using rmatch_suffix[of sc' r sc] by auto

lemma rmatch_Chr_less:
  assumes "sc' \<in> set (rmatch (Chr P) sc)"
  shows "length (fst sc') < length (fst sc)"
  using assms by (cases "fst sc") (auto split: if_splits)

lemma rmatch_seqs_Cons_D:
  assumes "sc' \<in> set (rmatch (seqs (r # rs)) sc)"
  obtains m where "m \<in> set (rmatch r sc)" and "sc' \<in> set (rmatch (seqs rs) m)"
  using assms by (auto simp: seqs_def)

lemma rmatch_Chr_Seq_less:
  assumes "sc' \<in> set (rmatch (Seq (Chr P) b) sc)"
  shows "length (fst sc') < length (fst sc)"
proof -
  from assms obtain m where m: "m \<in> set (rmatch (Chr P) sc)" and s: "sc' \<in> set (rmatch b m)"
    by auto
  from rmatch_Chr_less[OF m] rmatch_le[OF s] show ?thesis by simp
qed

lemma rmatch_Group_D:
  assumes "sc' \<in> set (rmatch (Group i a) sc)"
  obtains m where "m \<in> set (rmatch a sc)" and "fst sc' = fst m"
  using assms by auto

lemma rmatch_tag_shape_length:
  assumes "sc' \<in> set (rmatch (seqs (Chr P # r2 # Group i (Seq (Chr Q) r3) # rs)) sc)"
  shows "length (fst sc') + 2 \<le> length (fst sc)"
proof -
  from assms obtain m1 where 1: "m1 \<in> set (rmatch (Chr P) sc)"
    and r1: "sc' \<in> set (rmatch (seqs (r2 # Group i (Seq (Chr Q) r3) # rs)) m1)"
    by (rule rmatch_seqs_Cons_D)
  from r1 obtain m2 where 2: "m2 \<in> set (rmatch r2 m1)"
    and r2: "sc' \<in> set (rmatch (seqs (Group i (Seq (Chr Q) r3) # rs)) m2)"
    by (rule rmatch_seqs_Cons_D)
  from r2 obtain m3 where 3: "m3 \<in> set (rmatch (Group i (Seq (Chr Q) r3)) m2)"
    and r3: "sc' \<in> set (rmatch (seqs rs) m3)"
    by (rule rmatch_seqs_Cons_D)
  from 3 obtain m3' where "m3' \<in> set (rmatch (Seq (Chr Q) r3) m2)" and "fst m3 = fst m3'"
    by (rule rmatch_Group_D)
  with rmatch_Chr_Seq_less[of m3'] have "length (fst m3) < length (fst m2)" by simp
  with rmatch_Chr_less[OF 1] rmatch_le[OF 2] rmatch_le[OF r3] show ?thesis by simp
qed

lemma rmatch_comment_shape_length:
  assumes "sc' \<in> set (rmatch (seqs (Chr P # Chr Q # rs)) sc)"
  shows "length (fst sc') + 2 \<le> length (fst sc)"
proof -
  from assms obtain m1 where 1: "m1 \<in> set (rmatch (Chr P) sc)"
    and r1: "sc' \<in> set (rmatch (seqs (Chr Q # rs)) m1)"
    by (rule rmatch_seqs_Cons_D)
  from r1 obtain m2 where 2: "m2 \<in> set (rmatch (Chr Q) m1)"
    and r2: "sc' \<in> set (rmatch (seqs rs) m2)"
    by (rule rmatch_seqs_Cons_D)
  from rmatch_Chr_less[OF 1] rmatch_Chr_less[OF 2] rmatch_le[OF r2] show ?thesis by simp
qed

lemma exec_hd:
  assumes "exec r s = Some m"
  obtains sc where "sc \<in> set (rmatch r (s, (\<lambda>i. None)))"
    and "fst m = take (length s - length (fst sc)) s" and "snd m = snd sc"
proof -
  from assms obtain sc scs where r: "rmatch r (s, (\<lambda>i. None)) = sc # scs"
    and m: "m = (take (length s - length (fst sc)) s, snd sc)"
    by (auto simp: exec_def split: list.splits)
  from r have "sc \<in> set (rmatch r (s, (\<lambda>i. None)))" by simp
  with m that[of sc] show thesis by simp
qed

lemma exec_tag_length:
  assumes "exec tagRegexp s = Some m"
  shows "2 \<le> length (fst m)"
proof -
  from assms obtain sc where sc: "sc \<in> set (rmatch tagRegexp (s, (\<lambda>i. None)))"
    and m: "fst m = take (length s - length (fst sc)) s"
    by (rule exec_hd)
  from rmatch_tag_shape_length[OF sc[unfolded tagRegexp_def Lit_def]] m show ?thesis by simp
qed

lemma exec_comment_length:
  assumes "exec commentRegexp s = Some m"
  shows "2 \<le> length (fst m)"
proof -
  from assms obtain sc where sc: "sc \<in> set (rmatch commentRegexp (s, (\<lambda>i. None)))"
    and m: "fst m = take (length s - length (fst sc)) s"
    by (rule exec_hd)
  from rmatch_comment_shape_length[OF sc[unfolded commentRegexp_def Lit_def]] m show ?thesis by simp
qed

subsection \<open>What \<open>scanChars\<close> does to the state\<close>

lemma tryScanTag_length:
  assumes "tryScanTag st = Some (tag, st')"
  shows "2 \<le> length (fst tag)"
  using exec_tag_length[OF tryScanTag_frame(4)[OF assms]] .

lemma tryScanComment_bound:
  assumes "tryScanComment st = Some (c, st')"
  shows "2 \<le> length c" and "pos st' \<le> length (str st)" and "pos st' = pos st + length c"
    and "str st' = str st"
proof -
  from assms obtain m where e: "exec commentRegexp (drop (pos st) (str st)) = Some m"
    and c: "c = fst m"
    by (auto simp: tryScanComment_def split: option.splits)
  from exec_comment_length[OF e] c show l: "2 \<le> length c" by simp
  from tryScanComment_frame(1)[OF assms] show p: "pos st' = pos st + length c"
    and "str st' = str st" by simp_all
  from tryScanComment_frame(3)[OF assms] obtain rest where "drop (pos st) (str st) = c @ rest" ..
  then have "length (drop (pos st) (str st)) = length c + length rest" by simp
  with l p show "pos st' \<le> length (str st)" by simp
qed

definition scanChars_post :: "tokenizer \<Rightarrow> tokenizer \<Rightarrow> bool" where
  "scanChars_post st st' \<longleftrightarrow>
     (\<exists>la. st' = st\<lparr>pos := pos st', lookahead := lookahead st @ la, tcolumn := tcolumn st'\<rparr>
        \<and> pos st \<le> pos st'
        \<and> (pos st \<le> length (str st) \<longrightarrow> pos st' \<le> length (str st))
        \<and> length la \<le> 1
        \<and> pos st + 2 * length la \<le> pos st'
        \<and> tcolumn st \<le> tcolumn st'
        \<and> (la = [] \<longrightarrow> tcolumn st' = tcolumn st)
        \<and> (\<forall>t \<in> set la. name t \<in> {Tag, OpaqueTag, Comment}
              \<and> pos st \<le> offset (start (location t))
              \<and> offset (start (location t)) \<le> offset (endp (location t))
              \<and> offset (endp (location t)) = pos st'
              \<and> (\<forall>c. contents t = Some c \<longrightarrow>
                    length c + offset (start (location t)) \<le> offset (endp (location t)))))"

lemma scanChars_post_refl: "scanChars_post st st"
  by (auto simp: scanChars_post_def intro!: exI[of _ "[]"])

lemma scanChars_post_step:
  assumes "scanChars_post (st\<lparr>pos := p\<rparr>) st'" and "pos st \<le> p"
    and "pos st \<le> length (str st) \<Longrightarrow> p \<le> length (str st)"
  shows "scanChars_post st st'"
proof -
  from assms(1) obtain la where
    f: "st' = st\<lparr>pos := pos st', lookahead := lookahead st @ la, tcolumn := tcolumn st'\<rparr>"
    and r: "p \<le> pos st'" "p \<le> length (str st) \<longrightarrow> pos st' \<le> length (str st)"
      "length la \<le> 1" "p + 2 * length la \<le> pos st'" "tcolumn st \<le> tcolumn st'"
      "la = [] \<longrightarrow> tcolumn st' = tcolumn st"
      "\<forall>t \<in> set la. name t \<in> {Tag, OpaqueTag, Comment}
              \<and> p \<le> offset (start (location t))
              \<and> offset (start (location t)) \<le> offset (endp (location t))
              \<and> offset (endp (location t)) = pos st'
              \<and> (\<forall>c. contents t = Some c \<longrightarrow>
                    length c + offset (start (location t)) \<le> offset (endp (location t)))"
    unfolding scanChars_post_def by auto
  show ?thesis
    unfolding scanChars_post_def
  proof (intro exI[of _ la] conjI)
    show "st' = st\<lparr>pos := pos st', lookahead := lookahead st @ la, tcolumn := tcolumn st'\<rparr>"
      by (rule f)
    show "pos st \<le> pos st'" using r(1) assms(2) by simp
    show "pos st \<le> length (str st) \<longrightarrow> pos st' \<le> length (str st)"
      using r(2) assms(3) by simp
    show "length la \<le> 1" by (rule r(3))
    show "pos st + 2 * length la \<le> pos st'" using r(4) assms(2) by simp
    show "tcolumn st \<le> tcolumn st'" by (rule r(5))
    show "la = [] \<longrightarrow> tcolumn st' = tcolumn st" by (rule r(6))
    show "\<forall>t \<in> set la. name t \<in> {Tag, OpaqueTag, Comment}
              \<and> pos st \<le> offset (start (location t))
              \<and> offset (start (location t)) \<le> offset (endp (location t))
              \<and> offset (endp (location t)) = pos st'
              \<and> (\<forall>c. contents t = Some c \<longrightarrow>
                    length c + offset (start (location t)) \<le> offset (endp (location t)))"
      using r(7) assms(2) by auto
  qed
qed

lemma scanChars_post_lookahead:
  assumes "st1 = st\<lparr>pos := pos st1\<rparr>" and "pos st + 2 \<le> pos st1"
    and "pos st \<le> length (str st) \<Longrightarrow> pos st1 \<le> length (str st)"
    and "n \<in> {Tag, OpaqueTag, Comment}"
    and "length c + pos st \<le> pos st1"
  shows "scanChars_post st (enqueueLookahead st1 (tok n c) (getLocation st))"
proof -
  let ?st' = "enqueueLookahead st1 (tok n c) (getLocation st)"
  let ?t = "fst (locate st1 (tok n c) (getLocation st))"
  from assms(4) have n: "n \<noteq> Linebreak" "n \<noteq> Parabreak" by auto
  have e: "?st' = st1\<lparr>tcolumn := tcolumn st1 + (int (pos st1) - int (pos st)),
      lookahead := lookahead st1 @ [?t]\<rparr>"
    using n by (simp add: enqueueLookahead_def locate_def Let_def)
  have s: "lookahead st1 = lookahead st" "tcolumn st1 = tcolumn st" "str st1 = str st"
    by (subst assms(1), simp)+
  show ?thesis
    unfolding scanChars_post_def
  proof (intro exI[of _ "[?t]"] conjI)
    show "?st' = st\<lparr>pos := pos ?st', lookahead := lookahead st @ [?t], tcolumn := tcolumn ?st'\<rparr>"
      by (subst (1 2 3) e, subst (1 2 3 4 5 6) assms(1)) (simp add: s)
    show "pos st \<le> pos ?st'" using assms(2) by simp
    show "pos st \<le> length (str st) \<longrightarrow> pos ?st' \<le> length (str st)" using assms(3) by simp
    show "length [?t] \<le> 1" by simp
    show "pos st + 2 * length [?t] \<le> pos ?st'" using assms(2) by simp
    show "tcolumn st \<le> tcolumn ?st'" using assms(2) n s by (simp add: locate_line)
    show "[?t] = [] \<longrightarrow> tcolumn ?st' = tcolumn st" by simp
    show "\<forall>t \<in> set [?t]. name t \<in> {Tag, OpaqueTag, Comment}
              \<and> pos st \<le> offset (start (location t))
              \<and> offset (start (location t)) \<le> offset (endp (location t))
              \<and> offset (endp (location t)) = pos ?st'
              \<and> (\<forall>c. contents t = Some c \<longrightarrow>
                    length c + offset (start (location t)) \<le> offset (endp (location t)))"
      using assms(2,4,5) by simp
  qed
qed

lemma scanToEndTag_snd:
  "snd (scanToEndTag e st) = scanToEndTag_loop e st"
  "fst (scanToEndTag e st) = slice (str st) (pos st) (pos (scanToEndTag_loop e st))"
proof -
  have "str (scanToEndTag_loop e st) = str st"
    by (subst scanToEndTag_loop_only_pos) simp
  then show "snd (scanToEndTag e st) = scanToEndTag_loop e st"
    "fst (scanToEndTag e st) = slice (str st) (pos st) (pos (scanToEndTag_loop e st))"
    by (simp_all add: scanToEndTag_def Let_def)
qed

lemma scanEscape_bound:
  assumes "pos st < length (str st)"
  shows "pos (snd (scanEscape st)) \<le> length (str st)"
    and "snd (scanEscape st) = st\<lparr>pos := pos (snd (scanEscape st))\<rparr>"
    and "pos st < pos (snd (scanEscape st))"
  using assms by (auto simp: scanEscape_def Let_def)

lemma scanChars_loop_post:
  "scanChars_post st (snd (scanChars_loop st out))"
proof (induction st out rule: scanChars_loop.induct)
  case (1 st out)
  note R = scanChars_loop.simps[of st out]
  show ?case
  proof (cases "pos st < length (str st)")
    case False
    then show ?thesis by (simp add: R scanChars_post_refl)
  next
    case True
    note lt = True
    show ?thesis
    proof (cases "charAt (str st) (pos st) = Some backslash")
      case True
      obtain e st' where e: "scanEscape st = (e, st')" by (cases "scanEscape st")
      from scanEscape_bound[OF lt] e have b: "pos st' \<le> length (str st)"
        "st' = st\<lparr>pos := pos st'\<rparr>" "pos st < pos st'" by simp_all
      from "1.IH"(1)[OF lt refl refl True e[symmetric]]
      have "scanChars_post st' (snd (scanChars_loop st' (out @ e)))" .
      then have "scanChars_post (st\<lparr>pos := pos st'\<rparr>) (snd (scanChars_loop st' (out @ e)))"
        using b(2) by simp
      from scanChars_post_step[OF this] b
      have "scanChars_post st (snd (scanChars_loop st' (out @ e)))" by simp
      with lt True e show ?thesis by (simp add: R)
    next
      case False
      note nb = False
      show ?thesis
      proof (cases "isChars (charAt (str st) (pos st))")
        case True
        from "1.IH"(2)[OF lt refl refl nb True]
        have "scanChars_post (st\<lparr>pos := pos st + 1\<rparr>)
          (snd (scanChars_loop (st\<lparr>pos := pos st + 1\<rparr>) (out @ [str st ! pos st])))" .
        from scanChars_post_step[OF this] lt
        have "scanChars_post st
          (snd (scanChars_loop (st\<lparr>pos := pos st + 1\<rparr>) (out @ [str st ! pos st])))" by simp
        with lt nb True show ?thesis by (simp add: R)
      next
        case False
        note nc = False
        show ?thesis
        proof (cases "charAt (str st) (pos st) = Some CHR ''<''")
          case False
          with lt nb nc show ?thesis by (simp add: R scanChars_post_refl)
        next
          case True
          note isl = True
          show ?thesis
          proof (cases "tryScanTag st")
            case (Some a)
            obtain tag st1 where a: "a = (tag, st1)" by (cases a)
            note t = Some[unfolded a]
            note tb = tryScanTag_bound[OF t] tryScanTag_length[OF t] tryScanTag_frame(1)[OF t]
            show ?thesis
            proof (cases "opaqueName tag")
              case None
              have "scanChars_post st (enqueueLookahead st1 (tok Tag (fst tag)) (getLocation st))"
              proof (rule scanChars_post_lookahead)
                show "st1 = st\<lparr>pos := pos st1\<rparr>" using tb(5) by simp
                show "pos st + 2 \<le> pos st1" using tb(3,4) by simp
                show "pos st1 \<le> length (str st)" using tb(1) .
                show "Tag \<in> {Tag, OpaqueTag, Comment}" by simp
                show "length (fst tag) + pos st \<le> pos st1" using tb(3) by simp
              qed
              with lt nb nc isl t None show ?thesis by (simp add: R)
            next
              case (Some n)
              let ?st2 = "scanToEndTag_loop n st1"
              have "scanChars_post st (enqueueLookahead ?st2
                (tok OpaqueTag (fst tag @ fst (scanToEndTag n st1))) (getLocation st))"
              proof (rule scanChars_post_lookahead)
                have "?st2 = st1\<lparr>pos := pos ?st2\<rparr>" by (rule scanToEndTag_loop_only_pos)
                then show "?st2 = st\<lparr>pos := pos ?st2\<rparr>" by (subst (asm) (2) tb(5)) simp
                show "pos st + 2 \<le> pos ?st2"
                  using tb(3,4) scanToEndTag_loop_mono[of st1 n] by simp
                show "pos ?st2 \<le> length (str st)"
                  using scanToEndTag_loop_bound[of st1 n] tb(1,2) by simp
                show "OpaqueTag \<in> {Tag, OpaqueTag, Comment}" by simp
                show "length (fst tag @ fst (scanToEndTag n st1)) + pos st \<le> pos ?st2"
                  using tb(3) scanToEndTag_loop_mono[of st1 n]
                  by (simp add: scanToEndTag_snd slice_def)
              qed
              with lt nb nc isl t Some show ?thesis
                by (simp add: R split_beta scanToEndTag_snd)
            qed
          next
            case None
            note nt = None
            show ?thesis
            proof (cases "tryScanComment st")
              case (Some a)
              obtain c st1 where a: "a = (c, st1)" by (cases a)
              note t = Some[unfolded a]
              note cb = tryScanComment_bound[OF t] tryScanComment_frame(1)[OF t]
              have "scanChars_post st (enqueueLookahead st1 (tok Comment c) (getLocation st))"
              proof (rule scanChars_post_lookahead)
                show "st1 = st\<lparr>pos := pos st1\<rparr>" using cb(5) by simp
                show "pos st + 2 \<le> pos st1" using cb(1,3) by simp
                show "pos st1 \<le> length (str st)" using cb(2) .
                show "Comment \<in> {Tag, OpaqueTag, Comment}" by simp
                show "length c + pos st \<le> pos st1" using cb(3) by simp
              qed
              with lt nb nc isl nt t show ?thesis by (simp add: R)
            next
              case None
              from "1.IH"(3)[OF lt refl refl nb nc isl nt None]
              have "scanChars_post (st\<lparr>pos := pos st + 1\<rparr>)
                (snd (scanChars_loop (st\<lparr>pos := pos st + 1\<rparr>) (out @ [str st ! pos st])))" .
              from scanChars_post_step[OF this] lt
              have "scanChars_post st
                (snd (scanChars_loop (st\<lparr>pos := pos st + 1\<rparr>) (out @ [str st ! pos st])))" by simp
              with lt nb nc isl nt None show ?thesis by (simp add: R)
            qed
          qed
        qed
      qed
    qed
  qed
qed

lemma scanToEndTag_loop_sel [simp]:
  "str (scanToEndTag_loop e st) = str st"
  "queue (scanToEndTag_loop e st) = queue st"
  "eof (scanToEndTag_loop e st) = eof st"
  "newline (scanToEndTag_loop e st) = newline st"
  "previous (scanToEndTag_loop e st) = previous st"
  "lookahead (scanToEndTag_loop e st) = lookahead st"
  "tline (scanToEndTag_loop e st) = tline st"
  "tcolumn (scanToEndTag_loop e st) = tcolumn st"
  by (subst scanToEndTag_loop_only_pos, simp)+

lemma scanChars_loop_sel [simp]:
  "str (snd (scanChars_loop st out)) = str st"
  "queue (snd (scanChars_loop st out)) = queue st"
  "eof (snd (scanChars_loop st out)) = eof st"
  "newline (snd (scanChars_loop st out)) = newline st"
  "previous (snd (scanChars_loop st out)) = previous st"
  "tline (snd (scanChars_loop st out)) = tline st"
proof -
  from scanChars_loop_post[of st out] obtain la where
    f: "snd (scanChars_loop st out) = st\<lparr>pos := pos (snd (scanChars_loop st out)),
      lookahead := lookahead st @ la, tcolumn := tcolumn (snd (scanChars_loop st out))\<rparr>"
    unfolding scanChars_post_def by blast
  show "str (snd (scanChars_loop st out)) = str st"
    "queue (snd (scanChars_loop st out)) = queue st"
    "eof (snd (scanChars_loop st out)) = eof st"
    "newline (snd (scanChars_loop st out)) = newline st"
    "previous (snd (scanChars_loop st out)) = previous st"
    "tline (snd (scanChars_loop st out)) = tline st"
    by (subst f, simp)+
qed

lemma tryScanTag_SomeD:
  assumes "tryScanTag st = Some (tag, st')"
  shows "st' = st\<lparr>pos := pos st + length (fst tag)\<rparr>"
  using tryScanTag_frame(1)[OF assms] .

lemma tryScanComment_SomeD:
  assumes "tryScanComment st = Some (c, st')"
  shows "st' = st\<lparr>pos := pos st + length c\<rparr>"
  using tryScanComment_frame(1)[OF assms] .

lemma lineStart_queue:
  "lineStart st = Returned st' \<Longrightarrow> length (queue st) < length (queue st')"
  "lineStart st = FallThrough st' \<Longrightarrow> queue st' = queue st"
  by (auto simp: lineStart_def Let_def scanWhitespace_eq scanDigits_eq scanChars_def split_beta
        scanToEndTag_snd
      split: if_splits option.splits dest!: tryScanTag_SomeD tryScanComment_SomeD)

lemma dispatch_queue:
  "dispatch st = Inr st' \<Longrightarrow> length (queue st) < length (queue st')"
  by (auto simp: dispatch_def Let_def scanWhitespace_eq scanChars_def split_beta
        scanToEndTag_snd textFallback_def
      split: if_splits option.splits dest!: tryScanTag_SomeD tryScanComment_SomeD)

lemma matchToken_queue:
  "matchToken st = Inr st' \<Longrightarrow> length (queue st) < length (queue st')"
  using lineStart_queue[of st] dispatch_queue
  by (fastforce simp: matchToken_def Let_def split: if_splits outcome.splits)

section \<open>peek, next and expect\<close>

function peek_loop :: "nat \<Rightarrow> tokenizer \<Rightarrow> error + tokenizer" where
  "peek_loop dist st =
     (if \<not> eof st \<and> length (queue st) < dist then
        (case matchToken st of Inl e \<Rightarrow> Inl e | Inr st' \<Rightarrow> peek_loop dist st')
      else Inr st)"
  by pat_completeness auto
termination
proof (relation "measure (\<lambda>(dist, st). dist - length (queue st))", goal_cases)
  case 1
  show ?case by simp
next
  case (2 dist st st')
  from matchToken_queue[OF 2(2)] 2(1) show ?case by auto
qed

declare peek_loop.simps [simp del]

text \<open>
  \<open>queue[i]\<close> is \<open>undefined\<close> outside the queue, also at the index \<open>-1\<close> that
  \<open>peek(0)\<close> and an empty queue read.
\<close>

definition peek :: "nat \<Rightarrow> tokenizer \<Rightarrow> error + (token option \<times> tokenizer)" where
  "peek dist st =
     (case peek_loop dist st of
        Inl e \<Rightarrow> Inl e
      | Inr st' \<Rightarrow>
          if length (queue st') < dist then
            Inr (if queue st' = [] then None else Some (last (queue st')), st')
          else Inr (if dist = 0 then None else Some (queue st' ! (dist - 1)), st'))"

definition dequeue :: "tokenizer \<Rightarrow> tokenizer" where
  "dequeue st = st\<lparr>queue := tl (queue st)\<rparr>"

text \<open>
  \<open>next\<close>; reading \<open>name\<close> of \<open>undefined\<close> is a \<open>TypeError\<close>.
\<close>

definition next_token :: "tokenizer \<Rightarrow> error + (token \<times> tokenizer)" where
  "next_token st =
     (case peek 1 st of
        Inl e \<Rightarrow> Inl e
      | Inr (p, st1) \<Rightarrow>
          (let st2 = st1\<lparr>previous := p\<rparr>
           in case p of
                None \<Rightarrow> Inl TypeError
              | Some t \<Rightarrow> Inr (t, if name t \<noteq> EOF then dequeue st2 else st2)))"

fun name_string :: "token_name \<Rightarrow> string" where
  "name_string EOF = ''EOF''"
| "name_string Whitespace = ''whitespace''"
| "name_string Ol = ''ol''"
| "name_string Ul = ''ul''"
| "name_string Text = ''text''"
| "name_string Tag = ''tag''"
| "name_string OpaqueTag = ''opaqueTag''"
| "name_string Comment = ''comment''"
| "name_string Star_tok = ''star''"
| "name_string Underscore = ''underscore''"
| "name_string Tick = ''tick''"
| "name_string Pipe = ''pipe''"
| "name_string Tilde = ''tilde''"
| "name_string Linebreak = ''linebreak''"
| "name_string Parabreak = ''parabreak''"
| "name_string Id = ''id''"

definition expect :: "token_name \<Rightarrow> tokenizer \<Rightarrow> error + tokenizer" where
  "expect n st =
     (case peek 1 st of
        Inl e \<Rightarrow> Inl e
      | Inr (p, st1) \<Rightarrow>
          (case p of
             None \<Rightarrow> Inl TypeError
           | Some la \<Rightarrow>
               if name la = n then Inr st1
               else Inl (raise (''Unexpected token '' @ name_string (name la) @ ''; expected ''
                          @ name_string n) (start (location la)))))"

text \<open>\<open>n\<close> calls of \<open>next\<close> in a row, with the tokens they return.\<close>

fun nexts :: "nat \<Rightarrow> tokenizer \<Rightarrow> error + (token list \<times> tokenizer)" where
  "nexts 0 st = Inr ([], st)"
| "nexts (Suc n) st =
     (case next_token st of
        Inl e \<Rightarrow> Inl e
      | Inr (t, st1) \<Rightarrow>
          (case nexts n st1 of Inl e \<Rightarrow> Inl e | Inr (ts, st2) \<Rightarrow> Inr (t # ts, st2)))"

section \<open>The dispatch is exhaustive\<close>

lemma classification_exhaustive:
  "chr = Some CHR ''*'' \<or> chr = Some CHR ''_'' \<or> chr = Some CHR ''`'' \<or> chr = Some CHR ''|''
   \<or> chr = Some CHR ''~'' \<or> chr = Some CHR ''\<newline>'' \<or> isWhitespace chr \<or> isChars chr
   \<or> chr = Some CHR ''<''"
  by (auto simp: isChars_def isFormat_def isWhitespace_def)

lemma dispatch_total: "\<exists>st'. dispatch st = Inr st'"
  using classification_exhaustive[of "charAt (str st) (pos st)"]
  by (auto simp: dispatch_def Let_def split: option.splits prod.splits)

lemma matchToken_total: "\<exists>st'. matchToken st = Inr st'"
  using dispatch_total by (auto simp: matchToken_def Let_def split: outcome.splits)

lemma peek_loop_total: "\<exists>st'. peek_loop dist st = Inr st'"
proof (induction dist st rule: peek_loop.induct)
  case (1 dist st)
  show ?case
  proof (cases "\<not> eof st \<and> length (queue st) < dist")
    case True
    obtain st1 where m: "matchToken st = Inr st1" using matchToken_total by blast
    from "1.IH"[OF True m] True m show ?thesis by (subst peek_loop.simps) simp
  next
    case False
    then show ?thesis by (subst peek_loop.simps) auto
  qed
qed

lemma peek_total: "\<exists>r. peek dist st = Inr r"
  using peek_loop_total[of dist st] by (auto simp: peek_def)

section \<open>One call of matchToken\<close>

lemma takeWhile_drop_bound:
  "p \<le> length s \<Longrightarrow> p + length (takeWhile P (drop p s)) \<le> length s"
proof -
  assume "p \<le> length s"
  have "length (takeWhile P (drop p s)) \<le> length (drop p s)" by (rule length_takeWhile_le)
  with \<open>p \<le> length s\<close> show ?thesis by simp
qed

lemma takeWhile_drop_pos:
  assumes "p < length s" and "P (s ! p)"
  shows "0 < length (takeWhile P (drop p s))"
  using takeWhile_drop_step[of p s P] assms by simp

lemma scanEscape_length:
  assumes "pos st < length (str st)"
  shows "length (fst (scanEscape st)) + pos st \<le> pos (snd (scanEscape st))"
  using assms by (auto simp: scanEscape_def Let_def charAt_def)

lemma scanChars_loop_length:
  "pos st \<le> length (str st) \<Longrightarrow>
     length (fst (scanChars_loop st out)) + pos st \<le> length out + pos (snd (scanChars_loop st out))"
proof (induction st out rule: scanChars_loop.induct)
  case (1 st out)
  note R = scanChars_loop.simps[of st out]
  show ?case
  proof (cases "pos st < length (str st)")
    case False
    then show ?thesis by (simp add: R)
  next
    case True
    note lt = True
    show ?thesis
    proof (cases "charAt (str st) (pos st) = Some backslash")
      case True
      obtain e st' where e: "scanEscape st = (e, st')" by (cases "scanEscape st")
      from scanEscape_bound[OF lt] scanEscape_length[OF lt] e
      have b: "pos st' \<le> length (str st)" "st' = st\<lparr>pos := pos st'\<rparr>" "length e + pos st \<le> pos st'"
        by simp_all
      from scanEscape_frame(3)[OF e] have s: "str st' = str st" .
      from "1.IH"(1)[OF lt refl refl True e[symmetric]] b(1) s
      have "length (fst (scanChars_loop st' (out @ e))) + pos st'
        \<le> length (out @ e) + pos (snd (scanChars_loop st' (out @ e)))" by simp
      with b(3) lt True e show ?thesis by (simp add: R)
    next
      case False
      note nb = False
      show ?thesis
      proof (cases "isChars (charAt (str st) (pos st))")
        case True
        from "1.IH"(2)[OF lt refl refl nb True] lt nb True show ?thesis by (simp add: R)
      next
        case False
        note nc = False
        show ?thesis
        proof (cases "charAt (str st) (pos st) = Some CHR ''<''")
          case False
          with lt nb nc show ?thesis by (simp add: R)
        next
          case True
          note isl = True
          show ?thesis
          proof (cases "tryScanTag st")
            case (Some a)
            obtain tag st1 where a: "a = (tag, st1)" by (cases a)
            note t = Some[unfolded a]
            from tryScanTag_bound(3)[OF t] scanToEndTag_loop_mono[of st1]
            have "pos st \<le> pos st1" "\<And>n. pos st \<le> pos (scanToEndTag_loop n st1)"
              by (simp, metis add_leD1 le_trans)
            with lt nb nc isl t show ?thesis
              by (simp add: R Let_def split_beta scanToEndTag_snd split: option.splits)
          next
            case None
            note nt = None
            show ?thesis
            proof (cases "tryScanComment st")
              case (Some a)
              obtain c st1 where a: "a = (c, st1)" by (cases a)
              note t = Some[unfolded a]
              from tryScanComment_bound(3)[OF t] lt nb nc isl nt t show ?thesis
                by (simp add: R)
            next
              case None
              from "1.IH"(3)[OF lt refl refl nb nc isl nt None] lt nb nc isl nt None
              show ?thesis by (simp add: R)
            qed
          qed
        qed
      qed
    qed
  qed
qed

text \<open>
  Started on a backslash, a plain character, or a \<open><\<close> that opens neither a tag
  nor a comment, \<open>scanChars\<close> consumes at least one character and returns at least one.
\<close>

lemma scanChars_loop_first:
  assumes "pos st < length (str st)"
    and "isChars (charAt (str st) (pos st))
         \<or> (charAt (str st) (pos st) = Some CHR ''<'' \<and> tryScanTag st = None \<and> tryScanComment st = None)"
  shows "pos st < pos (snd (scanChars_loop st out))"
    and "length out < length (fst (scanChars_loop st out))"
proof -
  note R = scanChars_loop.simps[of st out]
  have mono: "\<And>s acc. pos s \<le> pos (snd (scanChars_loop s acc))"
    using scanChars_loop_post unfolding scanChars_post_def by blast
  have pre: "\<And>s acc. length acc \<le> length (fst (scanChars_loop s acc))"
  proof -
    fix s :: tokenizer and acc :: string
    show "length acc \<le> length (fst (scanChars_loop s acc))"
    proof (induction s acc rule: scanChars_loop.induct)
      case (1 st out)
      note R = scanChars_loop.simps[of st out]
      show ?case
      proof (cases "pos st < length (str st)")
        case False
        then show ?thesis by (simp add: R)
      next
        case True
        note lt = True
        show ?thesis
        proof (cases "charAt (str st) (pos st) = Some backslash")
          case True
          obtain e st' where e: "scanEscape st = (e, st')" by (cases "scanEscape st")
          from "1.IH"(1)[OF lt refl refl True e[symmetric]] lt True e show ?thesis
            by (simp add: R)
        next
          case False
          note nb = False
          show ?thesis
          proof (cases "isChars (charAt (str st) (pos st))")
            case True
            from "1.IH"(2)[OF lt refl refl nb True] lt nb True show ?thesis by (simp add: R)
          next
            case False
            note nc = False
            show ?thesis
            proof (cases "charAt (str st) (pos st) = Some CHR ''<'' \<and> tryScanTag st = None
                \<and> tryScanComment st = None")
              case True
              with "1.IH"(3)[OF lt refl refl nb nc] lt nb nc show ?thesis by (simp add: R)
            next
              case False
              with lt nb nc show ?thesis
                by (auto simp: R Let_def split_beta split: option.splits)
            qed
          qed
        qed
      qed
    qed
  qed
  show "pos st < pos (snd (scanChars_loop st out))"
  proof (cases "charAt (str st) (pos st) = Some backslash")
    case True
    from scanEscape_bound(3)[OF assms(1)] mono[of "snd (scanEscape st)" "out @ fst (scanEscape st)"]
      assms(1) True
    show ?thesis by (simp add: R split_beta)
  next
    case False
    with assms mono[of "st\<lparr>pos := pos st + 1\<rparr>" "out @ [str st ! pos st]"]
    show ?thesis by (auto simp: R isChars_def isFormat_def)
  qed
  show "length out < length (fst (scanChars_loop st out))"
  proof (cases "charAt (str st) (pos st) = Some backslash")
    case True
    have "1 \<le> length (fst (scanEscape st))"
      by (simp add: scanEscape_def Let_def Suc_le_eq split: option.splits)
    moreover from pre[of "out @ fst (scanEscape st)" "snd (scanEscape st)"]
    have "length out + length (fst (scanEscape st))
      \<le> length (fst (scanChars_loop (snd (scanEscape st)) (out @ fst (scanEscape st))))" by simp
    ultimately have "length out
      < length (fst (scanChars_loop (snd (scanEscape st)) (out @ fst (scanEscape st))))"
      by linarith
    with assms(1) True show ?thesis by (simp add: R split_beta)
  next
    case False
    with assms pre[of "out @ [str st ! pos st]" "st\<lparr>pos := pos st + 1\<rparr>"]
    show ?thesis by (auto simp: R isChars_def isFormat_def)
  qed
qed

definition start_off :: "token \<Rightarrow> nat" where
  "start_off t = offset (start (location t))"

definition end_off :: "token \<Rightarrow> nat" where
  "end_off t = offset (endp (location t))"

text \<open>
  A token lies between two positions: its span is inside them and is at least as long
  as its contents.
\<close>

definition tok_ok :: "nat \<Rightarrow> nat \<Rightarrow> token \<Rightarrow> bool" where
  "tok_ok lo hi t \<longleftrightarrow>
     lo \<le> start_off t \<and> start_off t \<le> end_off t \<and> end_off t \<le> hi
     \<and> (\<forall>c. contents t = Some c \<longrightarrow> length c + start_off t \<le> end_off t)"

text \<open>
  What a call of \<open>matchToken\<close> before the end of the input does: it advances, and
  appends to the queue at most as many tokens as it consumed characters.
\<close>

definition step_post :: "tokenizer \<Rightarrow> tokenizer \<Rightarrow> bool" where
  "step_post st st' \<longleftrightarrow>
     str st' = str st \<and> previous st' = previous st \<and> eof st' = eof st \<and> lookahead st' = []
     \<and> pos st < pos st' \<and> pos st' \<le> length (str st)
     \<and> (\<exists>new. queue st' = queue st @ new \<and> new \<noteq> []
           \<and> length new + pos st \<le> pos st'
           \<and> sorted (map start_off new) \<and> sorted (map end_off new)
           \<and> (\<forall>t \<in> set new. name t \<noteq> EOF \<and> tok_ok (pos st) (pos st') t))"

lemma step_post_weaken:
  assumes "step_post st1 st'" and "str st1 = str st" and "previous st1 = previous st"
    and "eof st1 = eof st" and "queue st1 = queue st" and "pos st \<le> pos st1"
  shows "step_post st st'"
proof -
  from assms(1) obtain new where n: "queue st' = queue st1 @ new" "new \<noteq> []"
    "length new + pos st1 \<le> pos st'" "sorted (map start_off new)" "sorted (map end_off new)"
    "\<forall>t \<in> set new. name t \<noteq> EOF \<and> tok_ok (pos st1) (pos st') t"
    and r: "str st' = str st1" "previous st' = previous st1" "eof st' = eof st1"
      "lookahead st' = []" "pos st1 < pos st'" "pos st' \<le> length (str st1)"
    unfolding step_post_def by blast
  from n(6) assms(6) have "\<forall>t \<in> set new. name t \<noteq> EOF \<and> tok_ok (pos st) (pos st') t"
    by (auto simp: tok_ok_def)
  with n r assms(2-6) show ?thesis
    unfolding step_post_def by (intro conjI exI[of _ new]) auto
qed

lemma located_offsets [simp]:
  "start_off (fst (locate X t p)) = offset p"
  "end_off (fst (locate X t p)) = pos X"
  by (simp_all add: start_off_def end_off_def)

text \<open>The last \<open>enqueue\<close> of a call, after \<open>pre\<close> was queued and \<open>la\<close> was found ahead.\<close>

lemma enqueue_step_post:
  assumes fr: "str X = str st" "previous X = previous st" "eof X = eof st"
    and q: "queue X = queue st @ pre" and la: "lookahead X = la"
    and p: "offset p = pos st" and adv: "pos st < pos X" "pos X \<le> length (str st)"
    and n: "n \<noteq> EOF"
    and cnt: "length pre + 1 + length la + pos st \<le> pos X"
    and c: "length c + pos st \<le> pos X"
    and pre: "length pre \<le> 1"
      "\<forall>t \<in> set pre. name t \<noteq> EOF \<and> start_off t = pos st \<and> tok_ok (pos st) (pos X) t"
    and lah: "length la \<le> 1"
      "\<forall>t \<in> set la. name t \<noteq> EOF \<and> end_off t = pos X \<and> tok_ok (pos st) (pos X) t"
  shows "step_post st (enqueue X (tok n c) p)"
proof -
  let ?T = "fst (locate X (tok n c) p)"
  let ?new = "pre @ ?T # la"
  have T: "name ?T \<noteq> EOF" "tok_ok (pos st) (pos X) ?T" "start_off ?T = pos st" "end_off ?T = pos X"
    using n p adv c by (simp_all add: tok_ok_def)
  have s1: "sorted (map start_off ?new)"
  proof (cases pre)
    case Nil
    with lah T(3) show ?thesis by (cases la) (auto simp: tok_ok_def)
  next
    case (Cons a as)
    with pre(1) have as: "as = []" by simp
    from Cons pre(2) have "start_off a = pos st" by simp
    with Cons as lah T(3) show ?thesis by (cases la) (auto simp: tok_ok_def)
  qed
  have s2: "sorted (map end_off ?new)"
  proof (cases pre)
    case Nil
    with lah T(4) show ?thesis by (cases la) (auto simp: tok_ok_def)
  next
    case (Cons a as)
    with pre(1) have as: "as = []" by simp
    from Cons pre(2) have "end_off a \<le> pos X" by (simp add: tok_ok_def)
    with Cons as lah T(4) show ?thesis by (cases la) (auto simp: tok_ok_def)
  qed
  have all: "\<forall>t \<in> set ?new. name t \<noteq> EOF \<and> tok_ok (pos st) (pos X) t"
    using T(1,2) pre(2) lah(2) by auto
  show ?thesis
    unfolding step_post_def
  proof (intro conjI exI[of _ ?new])
    show "queue (enqueue X (tok n c) p) = queue st @ ?new" using q la by simp
    show "length ?new + pos st \<le> pos (enqueue X (tok n c) p)" using cnt by simp
    show "sorted (map start_off ?new)" by (rule s1)
    show "sorted (map end_off ?new)" by (rule s2)
    show "\<forall>t \<in> set ?new. name t \<noteq> EOF \<and> tok_ok (pos st) (pos (enqueue X (tok n c) p)) t"
      using all by simp
  qed (use fr adv in simp_all)
qed

lemma scanChars_postE:
  assumes "scanChars_post st st'"
  obtains la where "lookahead st' = lookahead st @ la" and "pos st \<le> pos st'"
    and "pos st \<le> length (str st) \<longrightarrow> pos st' \<le> length (str st)"
    and "length la \<le> 1" and "pos st + 2 * length la \<le> pos st'"
    and "\<forall>t \<in> set la. name t \<in> {Tag, OpaqueTag, Comment}
              \<and> pos st \<le> offset (start (location t))
              \<and> offset (start (location t)) \<le> offset (endp (location t))
              \<and> offset (endp (location t)) = pos st'
              \<and> (\<forall>c. contents t = Some c \<longrightarrow>
                    length c + offset (start (location t)) \<le> offset (endp (location t)))"
proof -
  from assms obtain la where
    f: "st' = st\<lparr>pos := pos st', lookahead := lookahead st @ la, tcolumn := tcolumn st'\<rparr>"
    and r: "pos st \<le> pos st'" "pos st \<le> length (str st) \<longrightarrow> pos st' \<le> length (str st)"
      "length la \<le> 1" "pos st + 2 * length la \<le> pos st'"
      "\<forall>t \<in> set la. name t \<in> {Tag, OpaqueTag, Comment}
              \<and> pos st \<le> offset (start (location t))
              \<and> offset (start (location t)) \<le> offset (endp (location t))
              \<and> offset (endp (location t)) = pos st'
              \<and> (\<forall>c. contents t = Some c \<longrightarrow>
                    length c + offset (start (location t)) \<le> offset (endp (location t)))"
    unfolding scanChars_post_def by blast
  have "lookahead st' = lookahead st @ la" by (subst f) simp
  with r that[of la] show thesis by blast
qed

lemma lineStart_post:
  assumes lt: "pos st < length (str st)" and la0: "lookahead st = []"
  shows "case lineStart st of
           Returned st' \<Rightarrow> step_post st st'
         | FallThrough st' \<Rightarrow> st' = st\<lparr>newline := False, pos := pos st'\<rparr>
             \<and> pos st \<le> pos st' \<and> pos st' < length (str st)"
proof -
  note length_greater_0_conv [simp del]
  define ws where "ws = takeWhile (\<lambda>c. isWhitespace (Some c)) (drop (pos st) (str st))"
  define st1 where "st1 = st\<lparr>newline := False, pos := pos st + length ws\<rparr>"
  define sp where "sp = getLocation (st\<lparr>newline := False\<rparr>)"
  have sw: "scanWhitespace (st\<lparr>newline := False\<rparr>) = (ws, st1)"
    by (simp add: scanWhitespace_eq ws_def st1_def)
  have sp: "offset sp = pos st" by (simp add: sp_def)
  have f1: "str st1 = str st" "previous st1 = previous st" "eof st1 = eof st"
    "queue st1 = queue st" "lookahead st1 = []" "pos st1 = pos st + length ws"
    using la0 by (simp_all add: st1_def)
  have b1: "pos st1 \<le> length (str st)"
    using takeWhile_drop_bound[of "pos st" "str st" "\<lambda>c. isWhitespace (Some c)"] lt
    by (simp add: f1 ws_def)
  note unf = lineStart_def Let_def sw sp_def[symmetric] split_conv
  have wstok: "0 < length ws \<Longrightarrow> step_post st (enqueue st1 (tok Whitespace ws) sp)"
    by (rule enqueue_step_post[where pre="[]" and la="[]"]) (use f1 b1 sp in \<open>simp_all add: Suc_le_eq\<close>)
  show ?thesis
  proof (cases "pos st1 \<ge> length (str st1)")
    case True
    with f1 lt have "0 < length ws" by (cases ws) auto
    with True wstok show ?thesis by (auto simp: unf)
  next
    case False
    note in1 = False
    then have lt1: "pos st1 < length (str st)" by (simp add: f1)
    show ?thesis
    proof (cases "is_digit (str st1 ! pos st1)")
      case True
      define ds where "ds = takeWhile is_digit (drop (pos st1) (str st1))"
      define st2 where "st2 = st1\<lparr>pos := pos st1 + length ds\<rparr>"
      have sd: "scanDigits st1 = (ds, st2)" by (simp add: scanDigits_eq ds_def st2_def)
      have dpos: "0 < length ds"
        using takeWhile_drop_pos[of "pos st1" "str st1" is_digit] True lt1 by (simp add: ds_def f1)
      have f2: "str st2 = str st" "previous st2 = previous st" "eof st2 = eof st"
        "queue st2 = queue st" "lookahead st2 = []" "pos st2 = pos st + length ws + length ds"
        using f1 by (simp_all add: st2_def)
      have b2: "pos st2 \<le> length (str st)"
        using takeWhile_drop_bound[of "pos st1" "str st1" is_digit] lt1
        by (simp add: f1 f2 ds_def)
      show ?thesis
      proof (cases "charAt (str st2) (pos st2) = Some CHR ''.''
                \<and> charAt (str st2) (pos st2 + 1) = Some CHR '' ''")
        case True
        then have "pos st2 + 2 \<le> length (str st)"
          by (auto simp: charAt_def f2 split: if_splits)
        then have "step_post st (enqueue (st2\<lparr>pos := pos st2 + 2\<rparr>) (tok Ol (ws @ ds @ ''. '')) sp)"
          by (intro enqueue_step_post[where pre="[]" and la="[]"]) (use f2 sp in \<open>simp_all add: Suc_le_eq\<close>)
        with in1 \<open>is_digit (str st1 ! pos st1)\<close> True show ?thesis by (auto simp: unf sd)
      next
        case False
        note nol = False
        define wt where "wt = fst (locate st2 (tok Whitespace ws) sp)"
        define st3 where "st3 = (if length ws > 0 then enqueue st2 (tok Whitespace ws) sp else st2)"
        define pre where "pre = (if length ws > 0 then [wt] else [])"
        define st4 where "st4 = snd (scanChars st3)"
        define chars where "chars = fst (scanChars st3)"
        have f3: "str st3 = str st" "previous st3 = previous st" "eof st3 = eof st"
          "queue st3 = queue st @ pre" "lookahead st3 = []" "pos st3 = pos st2"
          using f2 by (simp_all add: st3_def pre_def wt_def)
        from scanChars_loop_post[of st3 "[]"] have "scanChars_post st3 st4"
          by (simp add: st4_def scanChars_def)
        then obtain la where
          la0: "lookahead st4 = lookahead st3 @ la" "pos st3 \<le> pos st4"
            "pos st3 \<le> length (str st3) \<longrightarrow> pos st4 \<le> length (str st3)"
            "length la \<le> 1" "pos st3 + 2 * length la \<le> pos st4"
            "\<forall>t \<in> set la. name t \<in> {Tag, OpaqueTag, Comment}
              \<and> pos st3 \<le> offset (start (location t))
              \<and> offset (start (location t)) \<le> offset (endp (location t))
              \<and> offset (endp (location t)) = pos st4
              \<and> (\<forall>c. contents t = Some c \<longrightarrow>
                    length c + offset (start (location t)) \<le> offset (endp (location t)))"
          by (rule scanChars_postE)
        have la: "lookahead st4 = la" "pos st3 \<le> pos st4" "pos st4 \<le> length (str st)"
            "length la \<le> 1" "pos st3 + 2 * length la \<le> pos st4"
          using la0(1-5) f3 b2 by simp_all
        note la = la la0(6)
        have f4: "str st4 = str st" "previous st4 = previous st" "eof st4 = eof st"
          "queue st4 = queue st @ pre"
          using f3 by (simp_all add: st4_def scanChars_def)
        have cl: "length chars + pos st3 \<le> pos st4"
          using scanChars_loop_length[of st3 "[]"] f3 b2 by (simp add: chars_def st4_def scanChars_def)
        have "step_post st (enqueue st4 (tok Text (ds @ chars)) sp)"
        proof (rule enqueue_step_post[where pre=pre and la=la])
          show "length pre + 1 + length la + pos st \<le> pos st4"
            using la(4,5) f3(6) f2(6) dpos by (auto simp: pre_def simp del: length_greater_0_conv)
          show "length (ds @ chars) + pos st \<le> pos st4" using cl f3(6) f2(6) by simp
          show "\<forall>t\<in>set pre. name t \<noteq> EOF \<and> start_off t = pos st \<and> tok_ok (pos st) (pos st4) t"
            using sp f2(6) f3(6) la(2) by (auto simp: pre_def wt_def tok_ok_def)
          show "\<forall>t\<in>set la. name t \<noteq> EOF \<and> end_off t = pos st4 \<and> tok_ok (pos st) (pos st4) t"
            using la(6) f3(6) f2(6) by (auto simp: tok_ok_def start_off_def end_off_def)
        qed (use f4 la sp f3 f2 dpos in \<open>simp_all add: pre_def Suc_le_eq\<close>)
        moreover have "lineStart st = Returned (enqueue st4 (tok Text (ds @ chars)) sp)"
          using in1 \<open>is_digit (str st1 ! pos st1)\<close> nol
          by (auto simp: unf sd st3_def split_beta st4_def chars_def)
        ultimately show ?thesis by simp
      qed
    next
      case False
      note nd = False
      show ?thesis
      proof (cases "charAt (str st1) (pos st1) = Some CHR ''*''
                \<and> charAt (str st1) (pos st1 + 1) = Some CHR '' ''")
        case True
        then have "pos st1 + 2 \<le> length (str st)"
          by (auto simp: charAt_def f1 split: if_splits)
        then have "step_post st (enqueue (st1\<lparr>pos := pos st1 + 2\<rparr>) (tok Ul (ws @ ''* '')) sp)"
          by (intro enqueue_step_post[where pre="[]" and la="[]"]) (use f1 sp in \<open>simp_all add: Suc_le_eq\<close>)
        with in1 nd True show ?thesis by (auto simp: unf)
      next
        case False
        note nul = False
        show ?thesis
        proof (cases "charAt (str st1) (pos st1) = Some CHR ''<''")
          case False
          show ?thesis
          proof (cases "0 < length ws")
            case True
            with in1 nd nul False wstok show ?thesis by (auto simp: unf)
          next
            case False
            with in1 nd nul \<open>charAt (str st1) (pos st1) \<noteq> Some CHR ''<''\<close> lt
            show ?thesis by (auto simp: unf st1_def)
          qed
        next
          case True
          note isl = True
          show ?thesis
          proof (cases "tryScanTag st1")
            case (Some a)
            obtain tag st2 where a: "a = (tag, st2)" by (cases a)
            note t = Some[unfolded a]
            note tb = tryScanTag_bound[OF t] tryScanTag_length[OF t] tryScanTag_frame(1)[OF t]
            have f2: "str st2 = str st" "previous st2 = previous st" "eof st2 = eof st"
              "queue st2 = queue st" "lookahead st2 = []"
              "pos st2 = pos st + length ws + length (fst tag)"
              by (subst tb(5), simp add: f1)+
            have b2: "pos st2 \<le> length (str st)" using tb(1) f1 by simp
            show ?thesis
            proof (cases "opaqueName tag")
              case None
              define wt where "wt = fst (locate st2 (tok Whitespace ws) sp)"
              define st3 where
                "st3 = (if length ws > 0 then enqueue st2 (tok Whitespace ws) sp else st2)"
              define pre where "pre = (if length ws > 0 then [wt] else [])"
              have f3: "str st3 = str st" "previous st3 = previous st" "eof st3 = eof st"
                "queue st3 = queue st @ pre" "lookahead st3 = []" "pos st3 = pos st2"
                using f2 by (simp_all add: st3_def pre_def wt_def)
              have "step_post st (enqueue st3 (tok Tag (fst tag)) sp)"
              proof (rule enqueue_step_post[where pre=pre and la="[]"])
                show "length pre + 1 + length [] + pos st \<le> pos st3"
                  using f3(6) f2(6) tb(4) by (auto simp: pre_def simp del: length_greater_0_conv)
                show "\<forall>t\<in>set pre. name t \<noteq> EOF \<and> start_off t = pos st \<and> tok_ok (pos st) (pos st3) t"
                  using sp f2(6) f3(6) by (auto simp: pre_def wt_def tok_ok_def)
              qed (use f3 f2 b2 sp tb(4) in \<open>simp_all add: pre_def Suc_le_eq\<close>)
              moreover have "lineStart st = Returned (enqueue st3 (tok Tag (fst tag)) sp)"
                using in1 nd nul isl t None by (auto simp: unf st3_def)
              ultimately show ?thesis by simp
            next
              case (Some n)
              define st3 where "st3 = scanToEndTag_loop n st2"
              define rest where "rest = fst (scanToEndTag n st2)"
              have m3: "pos st2 \<le> pos st3" "pos st3 \<le> length (str st)"
                using scanToEndTag_loop_mono[of st2 n] scanToEndTag_loop_bound[of st2 n] b2 f2
                by (simp_all add: st3_def)
              have rl: "length rest + pos st2 \<le> pos st3"
                using m3 by (simp add: rest_def scanToEndTag_snd slice_def st3_def)
              have "step_post st (enqueue st3 (tok OpaqueTag (ws @ fst tag @ rest)) sp)"
                by (rule enqueue_step_post[where pre="[]" and la="[]"])
                  (use f2 m3 rl sp tb(4) in \<open>simp_all add: st3_def Suc_le_eq\<close>)
              moreover have "lineStart st =
                  Returned (enqueue st3 (tok OpaqueTag (ws @ fst tag @ rest)) sp)"
                using in1 nd nul isl t Some
                by (auto simp: unf split_beta scanToEndTag_snd st3_def rest_def)
              ultimately show ?thesis by simp
            qed
          next
            case None
            note nt = None
            show ?thesis
            proof (cases "tryScanComment st1")
              case (Some a)
              obtain c st2 where a: "a = (c, st2)" by (cases a)
              note t = Some[unfolded a]
              note cb = tryScanComment_bound[OF t] tryScanComment_frame(1)[OF t]
              have f2: "str st2 = str st" "previous st2 = previous st" "eof st2 = eof st"
                "queue st2 = queue st" "lookahead st2 = []"
                "pos st2 = pos st + length ws + length c"
                by (subst cb(5), simp add: f1)+
              have "step_post st (enqueue st2 (tok Comment (ws @ c)) sp)"
                by (rule enqueue_step_post[where pre="[]" and la="[]"])
                  (use f2 cb(1,2) f1 sp in \<open>simp_all add: Suc_le_eq\<close>)
              with in1 nd nul isl nt t show ?thesis by (auto simp: unf)
            next
              case None
              from isl have "pos st1 < length (str st1)" by (auto simp: charAt_def split: if_splits)
              with in1 nd nul isl nt None show ?thesis by (auto simp: unf f1 st1_def)
            qed
          qed
        qed
      qed
    qed
  qed
qed

lemma scanChars_loop_progress:
  assumes "pos st < length (str st)"
    and "isChars (charAt (str st) (pos st)) \<or> charAt (str st) (pos st) = Some CHR ''<''"
  shows "pos st < pos (snd (scanChars_loop st out))"
proof (cases "isChars (charAt (str st) (pos st))
    \<or> (charAt (str st) (pos st) = Some CHR ''<'' \<and> tryScanTag st = None \<and> tryScanComment st = None)")
  case True
  from scanChars_loop_first(1)[OF assms(1) True] show ?thesis .
next
  case False
  with assms(2) have isl: "charAt (str st) (pos st) = Some CHR ''<''"
    and nc: "\<not> isChars (charAt (str st) (pos st))"
    and m: "tryScanTag st \<noteq> None \<or> tryScanComment st \<noteq> None" by auto
  from isl have nb: "charAt (str st) (pos st) \<noteq> Some backslash" by (simp add: backslash_def)
  note R = scanChars_loop.simps[of st out]
  show ?thesis
  proof (cases "tryScanTag st")
    case (Some a)
    obtain tag st1 where a: "a = (tag, st1)" by (cases a)
    note t = Some[unfolded a]
    from tryScanTag_bound(3)[OF t] tryScanTag_length[OF t] have "pos st < pos st1" by linarith
    moreover from this scanToEndTag_loop_mono[of st1]
    have "\<And>n. pos st < pos (scanToEndTag_loop n st1)" by (meson less_le_trans)
    ultimately show ?thesis using assms(1) nb nc isl t
      by (simp add: R Let_def split_beta scanToEndTag_snd split: option.splits)
  next
    case None
    with m obtain c st1 where t: "tryScanComment st = Some (c, st1)" by auto
    from tryScanComment_bound(1,3)[OF t] have "pos st < pos st1" by linarith
    with assms(1) nb nc isl None t show ?thesis by (simp add: R Let_def)
  qed
qed

lemma dispatch_post:
  assumes lt: "pos st < length (str st)" and la0: "lookahead st = []"
  shows "\<exists>st'. dispatch st = Inr st' \<and> step_post st st'"
proof -
  note length_greater_0_conv [simp del]
  define sp where "sp = getLocation st"
  define ch where "ch = str st ! pos st"
  have chr: "charAt (str st) (pos st) = Some ch" using lt by (simp add: charAt_def ch_def)
  have sp: "offset sp = pos st" by (simp add: sp_def)
  note unf = dispatch_def Let_def chr sp_def[symmetric] option.simps
  have single: "n \<noteq> EOF \<Longrightarrow> step_post st (enqueue (st\<lparr>pos := pos st + 1\<rparr>) (tok n [ch]) sp)" for n
    by (rule enqueue_step_post[where pre="[]" and la="[]"]) (use lt la0 sp in simp_all)
  have plain: "isChars (Some ch) \<or> ch = CHR ''<'' \<Longrightarrow>
    step_post st (enqueue (snd (scanChars st)) (tok Text (fst (scanChars st))) sp)"
  proof -
    assume c: "isChars (Some ch) \<or> ch = CHR ''<''"
    define st4 where "st4 = snd (scanChars st)"
    define chars where "chars = fst (scanChars st)"
    from scanChars_loop_post[of st "[]"] have "scanChars_post st st4"
      by (simp add: st4_def scanChars_def)
    then obtain la where
      la1: "lookahead st4 = lookahead st @ la" "pos st \<le> pos st4"
        "pos st \<le> length (str st) \<longrightarrow> pos st4 \<le> length (str st)"
        "length la \<le> 1" "pos st + 2 * length la \<le> pos st4"
        "\<forall>t \<in> set la. name t \<in> {Tag, OpaqueTag, Comment}
          \<and> pos st \<le> offset (start (location t))
          \<and> offset (start (location t)) \<le> offset (endp (location t))
          \<and> offset (endp (location t)) = pos st4
          \<and> (\<forall>c. contents t = Some c \<longrightarrow>
                length c + offset (start (location t)) \<le> offset (endp (location t)))"
      by (rule scanChars_postE)
    have la: "lookahead st4 = la" "pos st4 \<le> length (str st)" using la1(1,3) la0 lt by simp_all
    have pr: "pos st < pos st4"
      using scanChars_loop_progress[OF lt, of "[]"] c chr by (simp add: st4_def scanChars_def)
    have cl: "length chars + pos st \<le> pos st4"
      using scanChars_loop_length[of st "[]"] lt by (simp add: chars_def st4_def scanChars_def)
    have f4: "str st4 = str st" "previous st4 = previous st" "eof st4 = eof st"
      "queue st4 = queue st" by (simp_all add: st4_def scanChars_def)
    have "step_post st (enqueue st4 (tok Text chars) sp)"
    proof (rule enqueue_step_post[where pre="[]" and la=la])
      show "length [] + 1 + length la + pos st \<le> pos st4"
        using la1(4,5) pr by (cases la) auto
      show "\<forall>t\<in>set la. name t \<noteq> EOF \<and> end_off t = pos st4 \<and> tok_ok (pos st) (pos st4) t"
        using la1(6) by (auto simp: tok_ok_def start_off_def end_off_def)
    qed (use f4 la la1(4) pr cl sp in simp_all)
    then show ?thesis by (simp add: st4_def chars_def)
  qed
  show ?thesis
  proof (cases "ch = CHR ''*'' \<or> ch = CHR ''_'' \<or> ch = CHR ''`'' \<or> ch = CHR ''|'' \<or> ch = CHR ''~''")
    case True
    with single[of Star_tok] single[of Underscore] single[of Tick] single[of Pipe] single[of Tilde]
    show ?thesis by (auto simp: unf)
  next
    case False
    note nd = False
    show ?thesis
    proof (cases "ch = CHR ''\<newline>''")
      case True
      define np where "np = newline_loop (str st) (pos st + 1)"
      define st2 where "st2 = st\<lparr>newline := True, pos := np\<rparr>"
      have np: "pos st + 1 \<le> np" "np \<le> length (str st)"
        using takeWhile_drop_bound[of "pos st + 1" "str st" "\<lambda>c. c = CHR ''\<newline>''"] lt
        by (simp_all add: np_def newline_loop_eq)
      have f2: "str st2 = str st" "previous st2 = previous st" "eof st2 = eof st"
        "queue st2 = queue st" "lookahead st2 = []" "pos st2 = np"
        using la0 by (simp_all add: st2_def)
      have 1: "step_post st (enqueue st2 (tok Linebreak ''\<newline>'') sp)"
        by (rule enqueue_step_post[where pre="[]" and la="[]"]) (use f2 np sp in simp_all)
      have 2: "step_post st (enqueue st2 (tok Parabreak (slice (str st2) (pos st) np)) sp)"
        by (rule enqueue_step_post[where pre="[]" and la="[]"])
          (use f2 np sp in \<open>simp_all add: slice_def\<close>)
      from True nd 1 2 show ?thesis
        by (auto simp: unf np_def st2_def)
    next
      case False
      note nn = False
      show ?thesis
      proof (cases "isWhitespace (Some ch)")
        case True
        define ws where "ws = takeWhile (\<lambda>c. isWhitespace (Some c)) (drop (pos st) (str st))"
        define st1 where "st1 = st\<lparr>pos := pos st + length ws\<rparr>"
        have sw: "scanWhitespace st = (ws, st1)"
          by (simp add: scanWhitespace_eq ws_def st1_def)
        have wpos: "1 \<le> length ws"
          using takeWhile_drop_pos[of "pos st" "str st" "\<lambda>c. isWhitespace (Some c)"] True lt
          by (simp add: ws_def ch_def Suc_le_eq)
        have b1: "pos st1 \<le> length (str st)"
          using takeWhile_drop_bound[of "pos st" "str st" "\<lambda>c. isWhitespace (Some c)"] lt
          by (simp add: st1_def ws_def)
        have "step_post st (enqueue st1 (tok Whitespace ws) sp)"
          by (rule enqueue_step_post[where pre="[]" and la="[]"])
            (use wpos b1 la0 sp in \<open>simp_all add: st1_def\<close>)
        with True nd nn show ?thesis by (auto simp: unf sw)
      next
        case False
        note nw = False
        show ?thesis
        proof (cases "isChars (Some ch)")
          case True
          with plain nd nn nw show ?thesis by (auto simp: unf split_beta)
        next
          case False
          with nd nn nw have isl: "ch = CHR ''<''"
            using classification_exhaustive[of "Some ch"] by auto
          note nc = False
          show ?thesis
          proof (cases "charAt (str st) (pos st + 1) = Some CHR ''!''
               \<and> charAt (str st) (pos st + 2) = Some CHR ''-''
               \<and> charAt (str st) (pos st + 3) = Some CHR ''-''")
            case True
            show ?thesis
            proof (cases "tryScanComment st")
              case None
              with True nd nn nw nc isl plain show ?thesis
                by (auto simp: unf textFallback_def split_beta)
            next
              case (Some a)
              obtain c st2 where a: "a = (c, st2)" by (cases a)
              note t = Some[unfolded a]
              note cb = tryScanComment_bound[OF t] tryScanComment_frame(1)[OF t]
              have f2: "str st2 = str st" "previous st2 = previous st" "eof st2 = eof st"
                "queue st2 = queue st" "lookahead st2 = []" "pos st2 = pos st + length c"
                by (subst cb(5), simp add: la0)+
              have "step_post st (enqueue st2 (tok Comment c) sp)"
                by (rule enqueue_step_post[where pre="[]" and la="[]"])
                  (use f2 cb(1,2) sp in simp_all)
              with True nd nn nw nc isl t show ?thesis by (auto simp: unf)
            qed
          next
            case False
            note ncm = False
            show ?thesis
            proof (cases "tryScanTag st")
              case None
              with ncm nd nn nw nc isl plain show ?thesis
                by (auto simp: unf textFallback_def split_beta)
            next
              case (Some a)
              obtain tag st2 where a: "a = (tag, st2)" by (cases a)
              note t = Some[unfolded a]
              note tb = tryScanTag_bound[OF t] tryScanTag_length[OF t] tryScanTag_frame(1)[OF t]
              have f2: "str st2 = str st" "previous st2 = previous st" "eof st2 = eof st"
                "queue st2 = queue st" "lookahead st2 = []"
                "pos st2 = pos st + length (fst tag)"
                by (subst tb(5), simp add: la0)+
              show ?thesis
              proof (cases "opaqueName tag")
                case None
                have "step_post st (enqueue st2 (tok Tag (fst tag)) sp)"
                  by (rule enqueue_step_post[where pre="[]" and la="[]"])
                    (use f2 tb(1,4) sp in simp_all)
                with ncm nd nn nw nc isl t None show ?thesis by (auto simp: unf)
              next
                case (Some n)
                define st3 where "st3 = scanToEndTag_loop n st2"
                define rest where "rest = fst (scanToEndTag n st2)"
                have m3: "pos st2 \<le> pos st3" "pos st3 \<le> length (str st)"
                  using scanToEndTag_loop_mono[of st2 n] scanToEndTag_loop_bound[of st2 n] tb(1) f2
                  by (simp_all add: st3_def)
                have rl: "length rest + pos st2 \<le> pos st3"
                  using m3 by (simp add: rest_def scanToEndTag_snd slice_def st3_def)
                have "step_post st (enqueue st3 (tok OpaqueTag (fst tag @ rest)) sp)"
                  by (rule enqueue_step_post[where pre="[]" and la="[]"])
                    (use f2 m3 rl sp tb(4) in \<open>simp_all add: st3_def\<close>)
                with ncm nd nn nw nc isl t Some show ?thesis
                  by (auto simp: unf split_beta scanToEndTag_snd st3_def rest_def)
              qed
            qed
          qed
        qed
      qed
    qed
  qed
qed

lemma matchToken_step:
  assumes lt: "pos st < length (str st)" and la0: "lookahead st = []"
  shows "\<exists>st'. matchToken st = Inr st' \<and> step_post st st'"
proof (cases "newline st")
  case False
  with dispatch_post[OF lt la0] lt show ?thesis by (simp add: matchToken_def)
next
  case True
  show ?thesis
  proof (cases "lineStart st")
    case (Returned st')
    with lineStart_post[OF lt la0] True lt show ?thesis by (simp add: matchToken_def)
  next
    case (FallThrough st1)
    with lineStart_post[OF lt la0]
    have s: "st1 = st\<lparr>newline := False, pos := pos st1\<rparr>" and p: "pos st \<le> pos st1"
      and l: "pos st1 < length (str st)" by simp_all
    have f: "str st1 = str st" "previous st1 = previous st" "eof st1 = eof st"
      "queue st1 = queue st" "lookahead st1 = []"
      using la0 by (subst s, simp)+
    from dispatch_post[of st1] l f obtain st' where d: "dispatch st1 = Inr st'"
      and sp: "step_post st1 st'" by auto
    from step_post_weaken[OF sp f(1-4) p] d FallThrough True lt show ?thesis
      by (simp add: matchToken_def)
  qed
qed

lemma matchToken_at_end:
  assumes "pos st = length (str st)" and "lookahead st = []"
  shows "\<exists>st' t. matchToken st = Inr st' \<and> eof st' \<and> str st' = str st \<and> pos st' = pos st
     \<and> previous st' = previous st \<and> lookahead st' = [] \<and> queue st' = queue st @ [t]
     \<and> name t = EOF \<and> contents t = None \<and> start_off t = pos st \<and> end_off t = pos st"
proof -
  let ?e = "\<lparr>name = EOF, contents = None, tvalue = None\<rparr>"
  let ?st1 = "st\<lparr>eof := True\<rparr>"
  let ?st' = "enqueue ?st1 ?e (getLocation ?st1)"
  let ?t = "fst (locate ?st1 ?e (getLocation ?st1))"
  have "matchToken st = Inr ?st'" using assms(1) by (simp add: matchToken_def Let_def)
  moreover have "eof ?st'" "str ?st' = str st" "pos ?st' = pos st" "previous ?st' = previous st"
    "lookahead ?st' = []" "queue ?st' = queue st @ [?t]"
    using assms(2) by simp_all
  moreover have "name ?t = EOF" "contents ?t = None" "start_off ?t = pos st" "end_off ?t = pos st"
    by simp_all
  ultimately show ?thesis by blast
qed

section \<open>The token stream\<close>

text \<open>
  The states the public operations keep the tokenizer in: nothing waits in the lookahead
  buffer, the position is inside the input, and the end-of-input token is in the queue
  exactly when \<open>eof\<close> is set, as its last element.
\<close>

definition wf :: "tokenizer \<Rightarrow> bool" where
  "wf st \<longleftrightarrow>
     lookahead st = [] \<and> pos st \<le> length (str st)
     \<and> (if eof st then \<exists>q t. queue st = q @ [t] \<and> name t = EOF \<and> (\<forall>u \<in> set q. name u \<noteq> EOF)
         else \<forall>u \<in> set (queue st). name u \<noteq> EOF)"

text \<open>
  All tokens a state still has to serve: the queue, followed by what \<open>matchToken\<close> will
  add until it reaches the end of the input.
\<close>

function stream :: "tokenizer \<Rightarrow> token list" where
  "stream st =
     (if eof st \<or> length (str st) < pos st \<or> lookahead st \<noteq> [] then queue st
      else case matchToken st of Inl e \<Rightarrow> queue st | Inr st' \<Rightarrow> stream st')"
  by pat_completeness auto
termination
proof (relation "measure (\<lambda>st. (length (str st) - pos st) + (if eof st then 0 else 1))", goal_cases)
  case 1
  show ?case by simp
next
  case (2 st st')
  then have ne: "\<not> eof st" and le: "pos st \<le> length (str st)" and la: "lookahead st = []"
    and m: "matchToken st = Inr st'" by auto
  show ?case
  proof (cases "pos st < length (str st)")
    case True
    from matchToken_step[OF True la] m have "step_post st st'" by simp
    then show ?thesis using True ne by (auto simp: step_post_def)
  next
    case False
    with le have "pos st = length (str st)" by simp
    from matchToken_at_end[OF this la] m ne show ?thesis by auto
  qed
qed

declare stream.simps [simp del]

lemma Tokenizer_wf: "wf (Tokenizer s)"
  by (simp add: wf_def Tokenizer_def)

lemma matchToken_wf:
  assumes "wf st" and "\<not> eof st"
  shows "\<exists>st'. matchToken st = Inr st' \<and> wf st' \<and> stream st' = stream st
     \<and> previous st' = previous st \<and> str st' = str st
     \<and> length (queue st) < length (queue st')
     \<and> length (queue st') + (length (str st') - pos st') + (if eof st' then 0 else 1)
        \<le> length (queue st) + (length (str st) - pos st) + (if eof st then 0 else 1)"
proof -
  from assms have la: "lookahead st = []" and le: "pos st \<le> length (str st)"
    and q: "\<forall>u \<in> set (queue st). name u \<noteq> EOF" by (auto simp: wf_def)
  show ?thesis
  proof (cases "pos st < length (str st)")
    case True
    from matchToken_step[OF True la] obtain st' where m: "matchToken st = Inr st'"
      and sp: "step_post st st'" by blast
    from sp obtain new where n: "queue st' = queue st @ new" "new \<noteq> []"
      "length new + pos st \<le> pos st'" "\<forall>t \<in> set new. name t \<noteq> EOF"
      and r: "str st' = str st" "previous st' = previous st" "eof st' = eof st"
        "lookahead st' = []" "pos st < pos st'" "pos st' \<le> length (str st)"
      unfolding step_post_def by blast
    have "wf st'" using n(1,4) r q assms(2) by (auto simp: wf_def)
    moreover have "stream st' = stream st"
      using m assms(2) la le by (subst (2) stream.simps) simp
    ultimately show ?thesis using m n(1,2,3) r assms(2) by (cases new) auto
  next
    case False
    with le have e: "pos st = length (str st)" by simp
    from matchToken_at_end[OF e la] obtain st' t where m: "matchToken st = Inr st'"
      and r: "eof st'" "str st' = str st" "pos st' = pos st" "previous st' = previous st"
        "lookahead st' = []" "queue st' = queue st @ [t]" "name t = EOF"
      by blast
    have "wf st'" using r q le by (auto simp: wf_def)
    moreover have "stream st' = stream st"
      using m assms(2) la le by (subst (2) stream.simps) simp
    ultimately show ?thesis using m r assms(2) by auto
  qed
qed

lemma stream_eof: "eof st \<Longrightarrow> stream st = queue st"
  by (subst stream.simps) simp

text \<open>The stream starts with the queue and ends with the only end-of-input token.\<close>

lemma stream_shape:
  "wf st \<Longrightarrow> \<exists>ys q t. stream st = queue st @ ys \<and> stream st = q @ [t] \<and> name t = EOF
      \<and> (\<forall>u \<in> set q. name u \<noteq> EOF)
      \<and> length (stream st) \<le> length (queue st) + (length (str st) - pos st)
          + (if eof st then 0 else 1)"
proof (induction st rule: stream.induct)
  case (1 st)
  show ?case
  proof (cases "eof st")
    case True
    with "1.prems" stream_eof[OF True] show ?thesis by (auto simp: wf_def)
  next
    case False
    from matchToken_wf[OF "1.prems" False] obtain st' where m: "matchToken st = Inr st'"
      and w: "wf st'" and s: "stream st' = stream st"
      and l: "length (queue st) < length (queue st')"
      and c: "length (queue st') + (length (str st') - pos st') + (if eof st' then 0 else 1)
        \<le> length (queue st) + (length (str st) - pos st) + (if eof st then 0 else 1)"
      by blast
    from "1.prems" False have g: "\<not> (eof st \<or> length (str st) < pos st \<or> lookahead st \<noteq> [])"
      by (auto simp: wf_def)
    from "1.IH"[OF g m w] obtain ys q t where i: "stream st' = queue st' @ ys"
      "stream st' = q @ [t]" "name t = EOF" "\<forall>u \<in> set q. name u \<noteq> EOF"
      "length (stream st') \<le> length (queue st') + (length (str st') - pos st')
          + (if eof st' then 0 else 1)" by blast
    have "\<exists>new. queue st' = queue st @ new"
    proof (cases "pos st < length (str st)")
      case True
      from matchToken_step[OF True] "1.prems" m show ?thesis
        by (auto simp: wf_def step_post_def)
    next
      case False
      with "1.prems" have "pos st = length (str st)" by (simp add: wf_def)
      from matchToken_at_end[OF this] "1.prems" m show ?thesis by (auto simp: wf_def)
    qed
    then obtain new where "queue st' = queue st @ new" ..
    with i s c show ?thesis by (intro exI[of _ "new @ ys"] exI[of _ q] exI[of _ t]) auto
  qed
qed

lemma stream_frame:
  "stream (frame q pv st) = q @ stream st"
proof (induction st rule: stream.induct)
  case (1 st)
  note L = stream.simps[of "frame q pv st"]
  note R = stream.simps[of st]
  show ?case
  proof (cases "eof st \<or> length (str st) < pos st \<or> lookahead st \<noteq> []")
    case True
    then show ?thesis by (auto simp: L R)
  next
    case False
    obtain st' where m: "matchToken st = Inr st'" using matchToken_total by blast
    from "1.IH"[OF False m] False m show ?thesis
      by (simp add: L R matchToken_frame)
  qed
qed

lemma peek_loop_wf:
  "wf st \<Longrightarrow> \<exists>st'. peek_loop k st = Inr st' \<and> wf st' \<and> stream st' = stream st
     \<and> previous st' = previous st \<and> str st' = str st \<and> (eof st' \<or> k \<le> length (queue st'))"
proof (induction k st rule: peek_loop.induct)
  case (1 dist st)
  note R = peek_loop.simps[of dist st]
  show ?case
  proof (cases "\<not> eof st \<and> length (queue st) < dist")
    case False
    with "1.prems" show ?thesis by (auto simp: R)
  next
    case True
    from matchToken_wf[OF "1.prems"] True obtain st1 where m: "matchToken st = Inr st1"
      and w: "wf st1" and s: "stream st1 = stream st" "previous st1 = previous st"
        "str st1 = str st"
      by blast
    from "1.IH"[OF True m w] s True m show ?thesis by (auto simp: R)
  qed
qed

text \<open>\<open>peek(k)\<close> reads the stream at \<open>k\<close>, or its last token when \<open>k\<close> is past the end.\<close>

lemma peek_wf:
  assumes "wf st" and "0 < k"
  shows "\<exists>st'. peek k st = Inr (Some (stream st ! min (k - 1) (length (stream st) - 1)), st')
     \<and> wf st' \<and> stream st' = stream st \<and> previous st' = previous st \<and> str st' = str st
     \<and> queue st' \<noteq> []"
proof -
  from peek_loop_wf[OF assms(1), of k] obtain st' where l: "peek_loop k st = Inr st'"
    and w: "wf st'" and s: "stream st' = stream st" "previous st' = previous st"
      "str st' = str st"
    and d: "eof st' \<or> k \<le> length (queue st')" by blast
  from stream_shape[OF w] obtain ys where p: "stream st' = queue st' @ ys" by blast
  show ?thesis
  proof (cases "length (queue st') < k")
    case True
    with d have e: "eof st'" by simp
    with w have ne: "queue st' \<noteq> []" by (auto simp: wf_def)
    from stream_eof[OF e] s have q: "queue st' = stream st" by simp
    with True have "min (k - 1) (length (stream st) - 1) = length (stream st) - 1" by simp
    with ne q have "last (queue st') = stream st ! min (k - 1) (length (stream st) - 1)"
      by (simp add: last_conv_nth)
    with l True ne w s show ?thesis by (simp add: peek_def)
  next
    case False
    with assms(2) have ne: "queue st' \<noteq> []" by auto
    from False assms(2) have i: "k - 1 < length (queue st')" by simp
    with p s have "queue st' ! (k - 1) = stream st ! (k - 1)" by (metis nth_append)
    moreover have "length (queue st') \<le> length (stream st)"
      using p s by (metis length_append le_add1)
    with i have "min (k - 1) (length (stream st) - 1) = k - 1" by simp
    ultimately show ?thesis using l False ne w s assms(2) by (simp add: peek_def)
  qed
qed

lemma wf_previous: "wf (st\<lparr>previous := p\<rparr>) = wf st"
  by (simp add: wf_def)

lemma stream_previous: "stream (st\<lparr>previous := p\<rparr>) = stream st"
  using stream_frame[of "[]" p st] by (simp add: frame_def)

lemma stream_dequeue:
  assumes "queue st \<noteq> []"
  shows "stream (dequeue st) = tl (stream st)"
proof -
  have "st = frame [hd (queue st)] (previous st) (dequeue st)"
    using assms by (simp add: frame_def dequeue_def)
  then have "stream st = [hd (queue st)] @ stream (dequeue st)"
    using stream_frame[of "[hd (queue st)]" "previous st" "dequeue st"] by simp
  then show ?thesis by simp
qed

lemma wf_dequeue:
  assumes "wf st" and "queue st \<noteq> []" and "name (hd (queue st)) \<noteq> EOF"
  shows "wf (dequeue st)"
proof (cases "eof st")
  case False
  with assms show ?thesis
    by (auto simp: wf_def dequeue_def dest: list.set_sel(2))
next
  case True
  with assms(1) obtain q t where q: "queue st = q @ [t]" "name t = EOF" "\<forall>u \<in> set q. name u \<noteq> EOF"
    by (auto simp: wf_def)
  with assms(3) obtain a q' where "q = a # q'" by (cases q) auto
  with q assms(1) True show ?thesis by (auto simp: wf_def dequeue_def)
qed

text \<open>\<open>next()\<close> serves the head of the stream and removes it, unless it is the end.\<close>

lemma next_token_wf:
  assumes "wf st"
  shows "\<exists>st'. next_token st = Inr (hd (stream st), st') \<and> wf st' \<and> str st' = str st
     \<and> stream st' = (if name (hd (stream st)) = EOF then stream st else tl (stream st))"
proof -
  from peek_wf[OF assms, of 1] obtain st1 where
    p: "peek 1 st = Inr (Some (stream st ! 0), st1)" and w: "wf st1"
    and s: "stream st1 = stream st" "str st1 = str st" and ne: "queue st1 \<noteq> []"
    by auto
  from stream_shape[OF assms] have sne: "stream st \<noteq> []" by auto
  then have h: "stream st ! 0 = hd (stream st)" by (simp add: hd_conv_nth)
  from stream_shape[OF w] ne s have hq: "hd (queue st1) = hd (stream st)" by auto
  let ?st2 = "st1\<lparr>previous := Some (hd (stream st))\<rparr>"
  have w2: "wf ?st2" using w by (simp add: wf_previous)
  have s2: "stream ?st2 = stream st" using s by (simp add: stream_previous)
  show ?thesis
  proof (cases "name (hd (stream st)) = EOF")
    case True
    with p h w2 s2 s show ?thesis by (simp add: next_token_def)
  next
    case False
    from wf_dequeue[OF w2] ne hq False have "wf (dequeue ?st2)" by simp
    moreover from stream_dequeue[of ?st2] ne s2 have "stream (dequeue ?st2) = tl (stream st)"
      by simp
    moreover have "str (dequeue ?st2) = str st" using s by (simp add: dequeue_def)
    ultimately show ?thesis using p h False by (simp add: next_token_def)
  qed
qed

section \<open>Sequences of calls\<close>

text \<open>
  A caller's sequence of \<open>peek\<close> and \<open>next\<close> calls; \<open>run\<close> makes the calls in order and
  collects the tokens that the \<open>next\<close> calls return.
\<close>

datatype call = Peek nat | Next

fun run :: "call list \<Rightarrow> tokenizer \<Rightarrow> error + (token list \<times> tokenizer)" where
  "run [] st = Inr ([], st)"
| "run (Peek k # cs) st =
     (case peek k st of Inl e \<Rightarrow> Inl e | Inr (t, st1) \<Rightarrow> run cs st1)"
| "run (Next # cs) st =
     (case next_token st of
        Inl e \<Rightarrow> Inl e
      | Inr (t, st1) \<Rightarrow>
          (case run cs st1 of Inl e \<Rightarrow> Inl e | Inr (ts, st2) \<Rightarrow> Inr (t # ts, st2)))"

definition count_next :: "call list \<Rightarrow> nat" where
  "count_next cs = length (filter (\<lambda>c. c = Next) cs)"

text \<open>Serving \<open>n\<close> tokens from a stream: the end-of-input token is served again and again.\<close>

fun serve :: "nat \<Rightarrow> token list \<Rightarrow> token list" where
  "serve 0 xs = []"
| "serve (Suc n) xs = hd xs # serve n (if name (hd xs) = EOF then xs else tl xs)"

fun rest_after :: "nat \<Rightarrow> token list \<Rightarrow> token list" where
  "rest_after 0 xs = xs"
| "rest_after (Suc n) xs = rest_after n (if name (hd xs) = EOF then xs else tl xs)"

lemma nexts_serve:
  "wf st \<Longrightarrow> \<exists>st'. nexts n st = Inr (serve n (stream st), st') \<and> wf st' \<and> str st' = str st
     \<and> stream st' = rest_after n (stream st)"
proof (induction n arbitrary: st)
  case 0
  then show ?case by simp
next
  case (Suc n)
  from next_token_wf[OF Suc.prems] obtain st1 where
    n: "next_token st = Inr (hd (stream st), st1)" and w: "wf st1" and s: "str st1 = str st"
    and r: "stream st1 = (if name (hd (stream st)) = EOF then stream st else tl (stream st))"
    by blast
  from Suc.IH[OF w] obtain st' where i: "nexts n st1 = Inr (serve n (stream st1), st')"
    "wf st'" "str st' = str st1" "stream st' = rest_after n (stream st1)" by blast
  with n s r show ?case by simp
qed

lemma run_serve:
  "wf st \<Longrightarrow> \<forall>k. Peek k \<in> set cs \<longrightarrow> 0 < k \<Longrightarrow>
     \<exists>st'. run cs st = Inr (serve (count_next cs) (stream st), st') \<and> wf st' \<and> str st' = str st
       \<and> stream st' = rest_after (count_next cs) (stream st)"
proof (induction cs arbitrary: st)
  case Nil
  then show ?case by (simp add: count_next_def)
next
  case (Cons c cs)
  from Cons.prems(2) have pk: "\<forall>k. Peek k \<in> set cs \<longrightarrow> 0 < k" by simp
  show ?case
  proof (cases c)
    case (Peek k)
    with Cons.prems(2) have "0 < k" by simp
    from peek_wf[OF Cons.prems(1) this] obtain t st1 where
      p: "peek k st = Inr (t, st1)" and w: "wf st1" and s: "stream st1 = stream st"
        "str st1 = str st" by blast
    from Cons.IH[OF w pk] p s Peek show ?thesis by (simp add: count_next_def)
  next
    case Next
    from next_token_wf[OF Cons.prems(1)] obtain st1 where
      n: "next_token st = Inr (hd (stream st), st1)" and w: "wf st1" and s: "str st1 = str st"
      and r: "stream st1 = (if name (hd (stream st)) = EOF then stream st else tl (stream st))"
      by blast
    from Cons.IH[OF w pk] obtain st' where
      i: "run cs st1 = Inr (serve (count_next cs) (stream st1), st')" "wf st'"
        "str st' = str st1" "stream st' = rest_after (count_next cs) (stream st1)" by blast
    with n s r Next show ?thesis by (simp add: count_next_def)
  qed
qed

lemma rest_after_length: "length (rest_after n xs) \<le> length xs"
proof (induction n arbitrary: xs)
  case 0
  show ?case by simp
next
  case (Suc n)
  have "length (rest_after n (tl xs)) \<le> length (tl xs)" by (rule Suc.IH)
  moreover have "length (rest_after n xs) \<le> length xs" by (rule Suc.IH)
  ultimately show ?case by (auto simp: le_diff_conv)
qed

lemma serve_prefix:
  "\<forall>u \<in> set q. name u \<noteq> EOF \<Longrightarrow> serve (length q + m) (q @ ys) = q @ serve m ys"
  by (induction q) auto

lemma Tokenizer_stream:
  "\<exists>q t. stream (Tokenizer s) = q @ [t] \<and> name t = EOF \<and> (\<forall>u \<in> set q. name u \<noteq> EOF)
     \<and> length q \<le> length s"
proof -
  from stream_shape[OF Tokenizer_wf, of s] obtain q t where
    "stream (Tokenizer s) = q @ [t]" "name t = EOF" "\<forall>u \<in> set q. name u \<noteq> EOF"
    "length (stream (Tokenizer s)) \<le> length (queue (Tokenizer s))
       + (length (str (Tokenizer s)) - pos (Tokenizer s)) + (if eof (Tokenizer s) then 0 else 1)"
    by blast
  then show ?thesis by (intro exI[of _ q] exI[of _ t]) (simp add: Tokenizer_def)
qed

subsection \<open>A token of plain text\<close>



subsection \<open>The names of the tokens of a call\<close>

lemma scanChars_lookahead_names:
  assumes "lookahead st = []"
  shows "\<forall>t \<in> set (lookahead (snd (scanChars st))). name t \<in> {Tag, OpaqueTag, Comment}"
proof -
  from scanChars_loop_post[of st "[]"] have "scanChars_post st (snd (scanChars st))"
    by (simp add: scanChars_def)
  then obtain la where "lookahead (snd (scanChars st)) = lookahead st @ la"
    "\<forall>t \<in> set la. name t \<in> {Tag, OpaqueTag, Comment}
              \<and> pos st \<le> offset (start (location t))
              \<and> offset (start (location t)) \<le> offset (endp (location t))
              \<and> offset (endp (location t)) = pos (snd (scanChars st))
              \<and> (\<forall>c. contents t = Some c \<longrightarrow>
                    length c + offset (start (location t)) \<le> offset (endp (location t)))"
    by (rule scanChars_postE)
  with assms show ?thesis by simp
qed

lemma scanChars_sel [simp]:
  "str (snd (scanChars st)) = str st"
  "queue (snd (scanChars st)) = queue st"
  "eof (snd (scanChars st)) = eof st"
  "newline (snd (scanChars st)) = newline st"
  "previous (snd (scanChars st)) = previous st"
  "tline (snd (scanChars st)) = tline st"
  by (simp_all add: scanChars_def)

text \<open>The tokens that a call added to the queue.\<close>

definition emitted :: "tokenizer \<Rightarrow> tokenizer \<Rightarrow> token list" where
  "emitted st st' = drop (length (queue st)) (queue st')"

text \<open>
  The dispatch enqueues no list marker, and it ends on a linebreak or parabreak token
  exactly when it sets the line-start flag.
\<close>

lemma dispatch_names:
  assumes "lookahead st = []" and "dispatch st = Inr st'"
  shows "queue st' = queue st @ emitted st st' \<and> emitted st st' \<noteq> []
     \<and> (\<forall>t \<in> set (emitted st st'). name t \<noteq> Ol \<and> name t \<noteq> Ul)
     \<and> (if name (last (emitted st st')) \<in> {Linebreak, Parabreak} then newline st'
         else newline st' = newline st)"
proof -
  note la = scanChars_lookahead_names[OF assms(1)]
  have x: "\<And>t. t \<in> set (lookahead (snd (scanChars st))) \<Longrightarrow>
    name t \<noteq> Ol \<and> name t \<noteq> Ul \<and> name t \<noteq> Linebreak \<and> name t \<noteq> Parabreak"
    using la by auto
  have l: "lookahead (snd (scanChars st)) \<noteq> [] \<Longrightarrow>
    name (last (lookahead (snd (scanChars st)))) \<noteq> Linebreak
    \<and> name (last (lookahead (snd (scanChars st)))) \<noteq> Parabreak"
    using x last_in_set by blast
  from assms x l show ?thesis
    by (auto simp: dispatch_def Let_def scanWhitespace_eq split_beta scanToEndTag_snd
        textFallback_def emitted_def
      split: if_splits option.splits dest!: tryScanTag_SomeD tryScanComment_SomeD)
qed

lemma scanChars_lookahead_name:
  assumes "t \<in> set (lookahead (snd (scanChars s)))" and "lookahead s = []"
  shows "name t = Tag \<or> name t = OpaqueTag \<or> name t = Comment"
  using scanChars_lookahead_names[OF assms(2)] assms(1) by auto

lemma scanChars_lookahead_last:
  assumes "lookahead (snd (scanChars s)) \<noteq> []" and "lookahead s = []"
  shows "name (last (lookahead (snd (scanChars s)))) = Tag
    \<or> name (last (lookahead (snd (scanChars s)))) = OpaqueTag
    \<or> name (last (lookahead (snd (scanChars s)))) = Comment"
  using scanChars_lookahead_name[OF last_in_set[OF assms(1)] assms(2)] .

text \<open>
  At a line start a call that returns leaves the flag cleared and ends on a token that is
  no linebreak; one that falls through has queued nothing.
\<close>

lemma scanChars_lookahead_not_break:
  assumes "lookahead s = []" and "lookahead (snd (scanChars s)) \<noteq> []"
  shows "name (last (lookahead (snd (scanChars s)))) \<noteq> Linebreak"
    and "name (last (lookahead (snd (scanChars s)))) \<noteq> Parabreak"
  using scanChars_lookahead_last[OF assms(2,1)] by auto

lemma enqueue_names:
  assumes "queue X = queue st @ pre" and "\<not> newline X"
    and "n \<noteq> Linebreak" and "n \<noteq> Parabreak"
    and "lookahead X \<noteq> [] \<longrightarrow> name (last (lookahead X)) \<notin> {Linebreak, Parabreak}"
  shows "queue (enqueue X (tok n c) p) = queue st @ emitted st (enqueue X (tok n c) p)
     \<and> emitted st (enqueue X (tok n c) p) \<noteq> [] \<and> \<not> newline (enqueue X (tok n c) p)
     \<and> name (last (emitted st (enqueue X (tok n c) p))) \<notin> {Linebreak, Parabreak}"
  using assms by (auto simp: emitted_def)

lemma lineStart_names:
  assumes la0: "lookahead st = []"
  shows "case lineStart st of
           Returned st' \<Rightarrow> queue st' = queue st @ emitted st st' \<and> emitted st st' \<noteq> []
             \<and> \<not> newline st' \<and> name (last (emitted st st')) \<notin> {Linebreak, Parabreak}
         | FallThrough st1 \<Rightarrow> queue st1 = queue st \<and> lookahead st1 = [] \<and> \<not> newline st1"
proof -
  define ws where "ws = takeWhile (\<lambda>c. isWhitespace (Some c)) (drop (pos st) (str st))"
  define st1 where "st1 = st\<lparr>newline := False, pos := pos st + length ws\<rparr>"
  define sp where "sp = getLocation (st\<lparr>newline := False\<rparr>)"
  have sw: "scanWhitespace (st\<lparr>newline := False\<rparr>) = (ws, st1)"
    by (simp add: scanWhitespace_eq ws_def st1_def)
  have f1: "queue st1 = queue st" "lookahead st1 = []" "\<not> newline st1"
    using la0 by (simp_all add: st1_def)
  note unf = lineStart_def Let_def sw sp_def[symmetric] split_conv
  have one: "n \<noteq> Linebreak \<Longrightarrow> n \<noteq> Parabreak \<Longrightarrow> queue X = queue st \<Longrightarrow> \<not> newline X
    \<Longrightarrow> lookahead X = []
    \<Longrightarrow> queue (enqueue X (tok n c) sp) = queue st @ emitted st (enqueue X (tok n c) sp)
     \<and> emitted st (enqueue X (tok n c) sp) \<noteq> [] \<and> \<not> newline (enqueue X (tok n c) sp)
     \<and> name (last (emitted st (enqueue X (tok n c) sp))) \<notin> {Linebreak, Parabreak}" for n X c
    by (rule enqueue_names[where pre="[]"]) simp_all
  show ?thesis
  proof (cases "pos st1 \<ge> length (str st1)")
    case True
    with one[of Whitespace st1 ws] f1 show ?thesis by (auto simp: unf)
  next
    case False
    note in1 = False
    show ?thesis
    proof (cases "is_digit (str st1 ! pos st1)")
      case True
      define ds where "ds = takeWhile is_digit (drop (pos st1) (str st1))"
      define st2 where "st2 = st1\<lparr>pos := pos st1 + length ds\<rparr>"
      have sd: "scanDigits st1 = (ds, st2)" by (simp add: scanDigits_eq ds_def st2_def)
      have f2: "queue st2 = queue st" "lookahead st2 = []" "\<not> newline st2"
        using f1 by (simp_all add: st2_def)
      define st3 where "st3 = (if length ws > 0 then enqueue st2 (tok Whitespace ws) sp else st2)"
      have f3: "\<exists>pre. queue st3 = queue st @ pre" "lookahead st3 = []" "\<not> newline st3"
        using f2 by (simp_all add: st3_def)
      then obtain pre where pre: "queue st3 = queue st @ pre" by blast
      have "queue (enqueue (snd (scanChars st3)) (tok Text (ds @ fst (scanChars st3))) sp)
          = queue st @ emitted st (enqueue (snd (scanChars st3)) (tok Text (ds @ fst (scanChars st3))) sp)
       \<and> emitted st (enqueue (snd (scanChars st3)) (tok Text (ds @ fst (scanChars st3))) sp) \<noteq> []
       \<and> \<not> newline (enqueue (snd (scanChars st3)) (tok Text (ds @ fst (scanChars st3))) sp)
       \<and> name (last (emitted st (enqueue (snd (scanChars st3))
             (tok Text (ds @ fst (scanChars st3))) sp))) \<notin> {Linebreak, Parabreak}"
        by (rule enqueue_names[where pre=pre])
          (use pre f3 scanChars_lookahead_not_break[of st3] in auto)
      moreover have "queue (enqueue (st2\<lparr>pos := pos st2 + 2\<rparr>) (tok Ol (ws @ ds @ ''. '')) sp)
          = queue st @ emitted st (enqueue (st2\<lparr>pos := pos st2 + 2\<rparr>) (tok Ol (ws @ ds @ ''. '')) sp)
       \<and> emitted st (enqueue (st2\<lparr>pos := pos st2 + 2\<rparr>) (tok Ol (ws @ ds @ ''. '')) sp) \<noteq> []
       \<and> \<not> newline (enqueue (st2\<lparr>pos := pos st2 + 2\<rparr>) (tok Ol (ws @ ds @ ''. '')) sp)
       \<and> name (last (emitted st (enqueue (st2\<lparr>pos := pos st2 + 2\<rparr>)
             (tok Ol (ws @ ds @ ''. '')) sp))) \<notin> {Linebreak, Parabreak}"
        by (rule one) (use f2 in simp_all)
      ultimately show ?thesis using in1 True
        by (cases "ws = []") (simp_all add: unf sd split_beta st3_def)
    next
      case False
      note nd = False
      show ?thesis
      proof (cases "charAt (str st1) (pos st1) = Some CHR ''*''
                \<and> charAt (str st1) (pos st1 + 1) = Some CHR '' ''")
        case True
        with one[of Ul "st1\<lparr>pos := pos st1 + 2\<rparr>" "ws @ ''* ''"] f1 in1 nd show ?thesis
          by (simp add: unf)
      next
        case False
        note nul = False
        show ?thesis
        proof (cases "charAt (str st1) (pos st1) = Some CHR ''<''")
          case False
          with one[of Whitespace st1 ws] f1 in1 nd nul show ?thesis by (auto simp: unf)
        next
          case True
          note isl = True
          show ?thesis
          proof (cases "tryScanTag st1")
            case (Some a)
            obtain tag st2 where a: "a = (tag, st2)" by (cases a)
            note t = Some[unfolded a]
            have f2: "queue st2 = queue st" "lookahead st2 = []" "\<not> newline st2"
              by (subst tryScanTag_SomeD[OF t], simp add: f1)+
            show ?thesis
            proof (cases "opaqueName tag")
              case None
              define st3 where
                "st3 = (if length ws > 0 then enqueue st2 (tok Whitespace ws) sp else st2)"
              have f3: "\<exists>pre. queue st3 = queue st @ pre" "lookahead st3 = []" "\<not> newline st3"
                using f2 by (simp_all add: st3_def)
              then obtain pre where pre: "queue st3 = queue st @ pre" by blast
              have "queue (enqueue st3 (tok Tag (fst tag)) sp)
                  = queue st @ emitted st (enqueue st3 (tok Tag (fst tag)) sp)
               \<and> emitted st (enqueue st3 (tok Tag (fst tag)) sp) \<noteq> []
               \<and> \<not> newline (enqueue st3 (tok Tag (fst tag)) sp)
               \<and> name (last (emitted st (enqueue st3 (tok Tag (fst tag)) sp)))
                   \<notin> {Linebreak, Parabreak}"
                by (rule enqueue_names[where pre=pre]) (use pre f3 in auto)
              with in1 nd nul isl t None show ?thesis by (auto simp: unf st3_def)
            next
              case (Some n)
              from one[of OpaqueTag "scanToEndTag_loop n st2" "ws @ fst tag @ fst (scanToEndTag n st2)"]
                f2 in1 nd nul isl t Some
              show ?thesis by (auto simp: unf split_beta scanToEndTag_snd)
            qed
          next
            case None
            note nt = None
            show ?thesis
            proof (cases "tryScanComment st1")
              case (Some a)
              obtain c st2 where a: "a = (c, st2)" by (cases a)
              note t = Some[unfolded a]
              have f2: "queue st2 = queue st" "lookahead st2 = []" "\<not> newline st2"
                by (subst tryScanComment_SomeD[OF t], simp add: f1)+
              from one[of Comment st2 "ws @ c"] f2 in1 nd nul isl nt t show ?thesis
                by (auto simp: unf)
            next
              case None
              with in1 nd nul isl nt f1 show ?thesis by (auto simp: unf)
            qed
          qed
        qed
      qed
    qed
  qed
qed

lemma matchToken_flag:
  assumes "lookahead st = []" and "pos st < length (str st)" and "matchToken st = Inr st'"
  shows "newline st' \<longleftrightarrow> name (last (emitted st st')) \<in> {Linebreak, Parabreak}"
proof (cases "newline st")
  case False
  with assms have d: "dispatch st = Inr st'" by (simp add: matchToken_def)
  from dispatch_names[OF assms(1) d] False show ?thesis by (auto split: if_splits)
next
  case True
  show ?thesis
  proof (cases "lineStart st")
    case (Returned s)
    with lineStart_names[OF assms(1)] assms True show ?thesis by (simp add: matchToken_def)
  next
    case (FallThrough st1)
    with lineStart_names[OF assms(1)] have f: "queue st1 = queue st" "lookahead st1 = []"
      "\<not> newline st1" by simp_all
    from FallThrough assms True have d: "dispatch st1 = Inr st'" by (simp add: matchToken_def)
    from dispatch_names[OF f(2) d] f(1,3) show ?thesis
      by (auto simp: emitted_def split: if_splits)
  qed
qed

lemma matchToken_no_marker:
  assumes "lookahead st = []" and "\<not> newline st" and "matchToken st = Inr st'"
  shows "\<forall>t \<in> set (emitted st st'). name t \<noteq> Ol \<and> name t \<noteq> Ul"
proof (cases "pos st = length (str st)")
  case True
  from matchToken_at_end[OF True assms(1)] assms(3) show ?thesis by (auto simp: emitted_def)
next
  case False
  with assms have d: "dispatch st = Inr st'" by (simp add: matchToken_def)
  from dispatch_names[OF assms(1) d] show ?thesis by simp
qed

lemma takeWhile_run:
  assumes "\<forall>c \<in> set xs. P c" and "ys = [] \<or> \<not> P (hd ys)"
  shows "takeWhile P (xs @ ys) = xs"
  using assms by (cases ys) (simp_all add: takeWhile_append2)

lemma drop_charAt:
  assumes "drop p s = xs"
  shows "charAt s (p + k) = (if k < length xs then Some (xs ! k) else None)"
  using assms by (auto simp: charAt_def)

lemma digit_not_whitespace: "is_digit c \<Longrightarrow> \<not> isWhitespace (Some c)"
  by (auto simp: is_digit_def isWhitespace_def tab_def)

lemma dot_space_iff:
  "(charAt s p = Some CHR ''.'' \<and> charAt s (p + 1) = Some CHR '' '') \<longleftrightarrow> take 2 (drop p s) = ''. ''"
proof -
  obtain xs where xs: "drop p s = xs" by simp
  from drop_charAt[OF xs, of 0] drop_charAt[OF xs, of 1] show ?thesis
    unfolding xs by (cases xs; cases "tl xs") auto
qed

lemma lineStart_digits:
  assumes d: "drop (pos st) (str st) = ws @ ds @ rest"
    and ws: "\<forall>c \<in> set ws. isWhitespace (Some c)"
    and ds: "ds \<noteq> []" "\<forall>c \<in> set ds. is_digit c"
    and rest: "rest = [] \<or> \<not> is_digit (hd rest)"
  shows "lineStart st =
     (let start = getLocation (st\<lparr>newline := False\<rparr>);
          st2 = st\<lparr>newline := False, pos := pos st + length ws + length ds\<rparr>
      in if take 2 rest = ''. '' then
           Returned (enqueue (st2\<lparr>pos := pos st2 + 2\<rparr>) (tok Ol (ws @ ds @ ''. '')) start)
         else
           (let st3 = (if length ws > 0 then enqueue st2 (tok Whitespace ws) start else st2)
            in Returned (enqueue (snd (scanChars st3)) (tok Text (ds @ fst (scanChars st3))) start)))"
proof -
  have hd: "\<not> isWhitespace (Some (hd (ds @ rest)))"
    using ds by (cases ds) (simp_all add: digit_not_whitespace)
  have tw: "takeWhile (\<lambda>c. isWhitespace (Some c)) (drop (pos st) (str st)) = ws"
    unfolding d using ws hd ds by (intro takeWhile_run) simp_all
  define st1 where "st1 = st\<lparr>newline := False, pos := pos st + length ws\<rparr>"
  have sw: "scanWhitespace (st\<lparr>newline := False\<rparr>) = (ws, st1)"
    by (simp add: scanWhitespace_eq tw st1_def)
  have d1: "drop (pos st1) (str st1) = ds @ rest"
    using d by (simp add: st1_def add.commute[of "pos st"] drop_drop[symmetric] del: drop_drop)
  have in1: "pos st1 < length (str st1)"
    using d1 ds by (cases "pos st1 < length (str st1)") simp_all
  have dg: "is_digit (str st1 ! pos st1)"
    using d1 ds in1 by (cases ds) (auto simp: hd_drop_conv_nth[symmetric])
  have td: "takeWhile is_digit (drop (pos st1) (str st1)) = ds"
    unfolding d1 using ds rest by (intro takeWhile_run) simp_all
  define st2 where "st2 = st\<lparr>newline := False, pos := pos st + length ws + length ds\<rparr>"
  have sd: "scanDigits st1 = (ds, st2)"
    unfolding scanDigits_eq td by (simp add: st1_def st2_def)
  have d2: "drop (pos st2) (str st2) = rest"
    using d1 by (simp add: st1_def st2_def add.commute[of _ "length ds"] add.assoc
        drop_drop[symmetric] del: drop_drop)
  have ds2: "(charAt (str st2) (pos st2) = Some CHR ''.''
       \<and> charAt (str st2) (pos st2 + 1) = Some CHR '' '') \<longleftrightarrow> take 2 rest = ''. ''"
    by (simp only: dot_space_iff d2)
  show ?thesis
    using in1 dg ds2
    by (auto simp: lineStart_def Let_def sw sd split_beta st2_def[symmetric])
qed

subsection \<open>Locations along the token stream\<close>

text \<open>
  Tokens that lie before \<open>hi\<close>: each spans at least its contents, and the start offsets and
  the end offsets never decrease along the list.
\<close>

definition located :: "nat \<Rightarrow> token list \<Rightarrow> bool" where
  "located hi ts \<longleftrightarrow>
     (\<forall>t \<in> set ts. start_off t \<le> end_off t \<and> end_off t \<le> hi
        \<and> (\<forall>c. contents t = Some c \<longrightarrow> length c + start_off t \<le> end_off t))
     \<and> sorted (map start_off ts) \<and> sorted (map end_off ts)"

lemma located_mono:
  assumes "located lo ts" and "lo \<le> hi"
  shows "located hi ts"
proof -
  have "end_off t \<le> hi" if "end_off t \<le> lo" for t using that assms(2) by simp
  with assms(1) show ?thesis unfolding located_def by blast
qed

lemma located_append:
  assumes "located lo xs" and "\<forall>t \<in> set ys. tok_ok lo hi t"
    and "sorted (map start_off ys)" and "sorted (map end_off ys)" and "lo \<le> hi"
  shows "located hi (xs @ ys)"
proof -
  from located_mono[OF assms(1,5)] have xh: "located hi xs" .
  from assms(1) have x: "\<And>a. a \<in> set xs \<Longrightarrow> start_off a \<le> lo \<and> end_off a \<le> lo"
    unfolding located_def by (meson order_trans)
  from assms(2) have y: "\<And>b. b \<in> set ys \<Longrightarrow> lo \<le> start_off b \<and> lo \<le> end_off b"
    unfolding tok_ok_def by (meson order_trans)
  have b1: "\<forall>a \<in> set xs. \<forall>b \<in> set ys. start_off a \<le> start_off b"
    using x y by (meson order_trans)
  have b2: "\<forall>a \<in> set xs. \<forall>b \<in> set ys. end_off a \<le> end_off b"
    using x y by (meson order_trans)
  have s1: "sorted (map start_off (xs @ ys))"
    using xh assms(3) b1 by (simp add: located_def sorted_append)
  have s2: "sorted (map end_off (xs @ ys))"
    using xh assms(4) b2 by (simp add: located_def sorted_append)
  have e: "\<forall>t \<in> set (xs @ ys). start_off t \<le> end_off t \<and> end_off t \<le> hi
        \<and> (\<forall>c. contents t = Some c \<longrightarrow> length c + start_off t \<le> end_off t)"
    using xh assms(2) unfolding located_def tok_ok_def set_append by blast
  from e s1 s2 show ?thesis unfolding located_def by blast
qed

lemma stream_located:
  "wf st \<Longrightarrow> located (pos st) (queue st) \<Longrightarrow> located (length (str st)) (stream st)"
proof (induction st rule: stream.induct)
  case (1 st)
  from "1.prems"(1) have la: "lookahead st = []" and le: "pos st \<le> length (str st)"
    by (simp_all add: wf_def)
  show ?case
  proof (cases "eof st")
    case True
    with "1.prems"(2) le show ?thesis by (simp add: stream_eof located_mono)
  next
    case False
    from matchToken_wf[OF "1.prems"(1) False] obtain st' where
      m: "matchToken st = Inr st'" and w: "wf st'" and s: "stream st' = stream st"
      and r: "str st' = str st" by blast
    have q: "located (pos st') (queue st')"
    proof (cases "pos st < length (str st)")
      case True
      from matchToken_step[OF True la] m have "step_post st st'" by simp
      then obtain new where "queue st' = queue st @ new" "sorted (map start_off new)"
        "sorted (map end_off new)" "\<forall>t \<in> set new. name t \<noteq> EOF \<and> tok_ok (pos st) (pos st') t"
        unfolding step_post_def by blast
      moreover from \<open>step_post st st'\<close> have "pos st \<le> pos st'" by (simp add: step_post_def)
      ultimately show ?thesis using located_append[OF "1.prems"(2), of new "pos st'"] by simp
    next
      case False
      with le have e: "pos st = length (str st)" by simp
      from matchToken_at_end[OF e la] m obtain t where
        t: "pos st' = pos st" "queue st' = queue st @ [t]" "contents t = None"
          "start_off t = pos st" "end_off t = pos st" by auto
      from located_append[OF "1.prems"(2), of "[t]" "pos st'"] t show ?thesis
        by (simp add: tok_ok_def)
    qed
    have c: "\<not> (eof st \<or> length (str st) < pos st \<or> lookahead st \<noteq> [])"
      using False le la by simp
    from "1.IH"[OF c m w q] r s show ?thesis by simp
  qed
qed

lemma serve_take:
  "name t = EOF \<Longrightarrow> \<forall>u \<in> set q. name u \<noteq> EOF \<Longrightarrow>
     serve n (q @ [t]) = take n q @ replicate (n - length q) t"
proof (induction q arbitrary: n)
  case Nil
  then show ?case by (induction n) simp_all
next
  case (Cons a q)
  then show ?case by (cases n) simp_all
qed

lemma located_serve:
  assumes "located hi (q @ [t])" and "name t = EOF" and "\<forall>u \<in> set q. name u \<noteq> EOF"
  shows "located hi (serve n (q @ [t]))"
proof -
  have s: "sorted (map f (take n q @ replicate k t))" if "sorted (map f (q @ [t]))" for f k
  proof -
    from that have a: "sorted (map f q)" "\<forall>x \<in> set q. f x \<le> f t"
      by (auto simp: sorted_append)
    have "sorted (map f (take n q))" using a(1) by (simp add: sorted_wrt_take take_map[symmetric] del: take_map)
    moreover have "\<forall>x \<in> set (take n q). f x \<le> f t" using a(2) by (meson in_set_takeD)
    ultimately show ?thesis by (auto simp: sorted_append sorted_replicate)
  qed
  have "set (take n q @ replicate (n - length q) t) \<subseteq> set (q @ [t])"
    by (auto dest: in_set_takeD)
  with assms(1) s[of start_off] s[of end_off] show ?thesis
    unfolding serve_take[OF assms(2,3)] located_def by blast
qed

subsection \<open>The capture groups of a tag\<close>









subsection \<open>Where the scan for the end tag stops\<close>


lemma scanToEndTag_loop_skip:
  "CHR ''<'' \<notin> set (take k (drop (pos st) (str st))) \<Longrightarrow> pos st + k \<le> length (str st) \<Longrightarrow>
     scanToEndTag_loop e st = scanToEndTag_loop e (st\<lparr>pos := pos st + k\<rparr>)"
proof (induction k arbitrary: st)
  case 0
  show ?case by simp
next
  case (Suc k)
  from Suc.prems(2) have lt: "pos st < length (str st)" by simp
  then have d: "drop (pos st) (str st) = str st ! pos st # drop (pos st + 1) (str st)"
    by (simp add: Cons_nth_drop_Suc)
  with Suc.prems(1) have c: "str st ! pos st \<noteq> CHR ''<''"
    and r: "CHR ''<'' \<notin> set (take k (drop (pos st + 1) (str st)))" by auto
  from c lt have n: "tryScanTag st = None" by (simp add: tryScanTag_def charAt_def)
  have "scanToEndTag_loop e st = scanToEndTag_loop e (st\<lparr>pos := pos st + 1\<rparr>)"
    using lt n by (simp add: scanToEndTag_loop.simps[of e st])
  also have "\<dots> = scanToEndTag_loop e (st\<lparr>pos := pos st + 1, pos := pos st + 1 + k\<rparr>)"
    using Suc.IH[of "st\<lparr>pos := pos st + 1\<rparr>"] r Suc.prems(2) by simp
  finally show ?case by simp
qed

lemma slice_prefix:
  assumes "drop a s = xs @ r"
  shows "slice s a (a + length xs + k) = xs @ slice s (a + length xs) (a + length xs + k)"
proof -
  have "drop (a + length xs) s = r"
    using assms by (metis add.commute append_eq_conv_conj drop_drop)
  with assms show ?thesis by (simp add: slice_def)
qed



subsection \<open>The identifier pattern\<close>

lemma clear_empty [simp]: "clear {} c = c"
  by (simp add: clear_def)

lemma rmatch_Lit_D:
  assumes "m \<in> set (rmatch (Lit c) sc)"
  shows "fst sc = c # fst m" and "snd m = snd sc"
  using assms by (cases "fst sc"; auto simp: Lit_def split: if_splits)+

lemma rmatch_Lit_I: "(xs, c) \<in> set (rmatch (Lit x) (x # xs, c))"
  by (simp add: Lit_def)

lemma rmatch_Seq_I:
  "m \<in> set (rmatch a sc) \<Longrightarrow> sc' \<in> set (rmatch b m) \<Longrightarrow> sc' \<in> set (rmatch (Seq a b) sc)"
  by auto

lemma rmatch_seqs_Cons_I:
  "m \<in> set (rmatch r sc) \<Longrightarrow> sc' \<in> set (rmatch (seqs rs) m) \<Longrightarrow> sc' \<in> set (rmatch (seqs (r # rs)) sc)"
  by (auto simp: seqs_def)

lemma rmatch_seqs_Nil [simp]: "rmatch (seqs []) sc = [sc]"
  by (simp add: seqs_def)

lemma rmatch_Star_Chr_D:
  "sc' \<in> set (rmatch (Star (Chr P)) sc) \<Longrightarrow>
     \<exists>zs. fst sc = zs @ fst sc' \<and> (\<forall>c \<in> set zs. P c) \<and> snd sc' = snd sc"
proof (induction "length (fst sc)" arbitrary: sc rule: less_induct)
  case less
  show ?case
  proof (cases "sc' = sc")
    case True
    then show ?thesis by simp
  next
    case False
    from less.prems have "sc' \<in> set (concat (map (\<lambda>sc'. if length (fst sc') < length (fst sc)
        then rmatch (Star (Chr P)) sc' else [])
        (rmatch (Chr P) (fst sc, clear (groups (Chr P)) (snd sc))))) \<or> sc' = sc"
      by (subst (asm) rmatch.simps(5)) auto
    with False obtain m where m: "m \<in> set (rmatch (Chr P) (fst sc, snd sc))"
      and l: "length (fst m) < length (fst sc)" and s: "sc' \<in> set (rmatch (Star (Chr P)) m)"
      by (auto split: if_splits)
    from m obtain x where x: "fst sc = x # fst m" "P x" "snd m = snd sc"
      by (cases "fst sc") (auto split: if_splits)
    from less.hyps[OF l s] obtain zs where
      zs: "fst m = zs @ fst sc'" "\<forall>c \<in> set zs. P c" "snd sc' = snd m" by blast
    from x zs have "fst sc = (x # zs) @ fst sc' \<and> (\<forall>c \<in> set (x # zs). P c) \<and> snd sc' = snd sc"
      by simp
    then show ?thesis by blast
  qed
qed

lemma rmatch_Star_Chr_I:
  "\<forall>c \<in> set zs. P c \<Longrightarrow> (ys, c) \<in> set (rmatch (Star (Chr P)) (zs @ ys, c))"
proof (induction zs)
  case Nil
  show ?case by (subst rmatch.simps(5)) simp
next
  case (Cons z zs)
  then have "(ys, c) \<in> set (rmatch (Star (Chr P)) (zs @ ys, c))" by simp
  with Cons.prems show ?case by (subst rmatch.simps(5)) simp
qed

text \<open>What a match of the pattern looks like, and that such a text is matched.\<close>

definition idText :: "string \<Rightarrow> string" where
  "idText ident = ''[id='' @ [CHR 0x22] @ ident @ [CHR 0x22] @ ''] ''"

definition isIdent :: "string \<Rightarrow> bool" where
  "isIdent ident \<longleftrightarrow> ident \<noteq> [] \<and> (\<forall>c \<in> set ident. is_word c \<or> c = CHR ''-'')"

lemma rmatch_id_D:
  assumes "sc' \<in> set (rmatch idRegexp (s, c0))"
  shows "\<exists>ident. isIdent ident \<and> s = idText ident @ fst sc' \<and> snd sc' 1 = Some ident"
proof -
  note a = assms[unfolded idRegexp_def]
  from a obtain m1 where 1: "m1 \<in> set (rmatch (Lit CHR ''['') (s, c0))"
    and r1: "sc' \<in> set (rmatch (seqs [Lit CHR ''i'', Lit CHR ''d'', Lit CHR ''='', Lit CHR 0x22,
      Group 1 (Plus (Chr (\<lambda>c. is_word c \<or> c = CHR ''-''))),
      Lit CHR 0x22, Lit CHR '']'', Lit CHR '' '']) m1)" by (rule rmatch_seqs_Cons_D)
  from r1 obtain m2 where 2: "m2 \<in> set (rmatch (Lit CHR ''i'') m1)"
    and r2: "sc' \<in> set (rmatch (seqs [Lit CHR ''d'', Lit CHR ''='', Lit CHR 0x22,
      Group 1 (Plus (Chr (\<lambda>c. is_word c \<or> c = CHR ''-''))),
      Lit CHR 0x22, Lit CHR '']'', Lit CHR '' '']) m2)" by (rule rmatch_seqs_Cons_D)
  from r2 obtain m3 where 3: "m3 \<in> set (rmatch (Lit CHR ''d'') m2)"
    and r3: "sc' \<in> set (rmatch (seqs [Lit CHR ''='', Lit CHR 0x22,
      Group 1 (Plus (Chr (\<lambda>c. is_word c \<or> c = CHR ''-''))),
      Lit CHR 0x22, Lit CHR '']'', Lit CHR '' '']) m3)" by (rule rmatch_seqs_Cons_D)
  from r3 obtain m4 where 4: "m4 \<in> set (rmatch (Lit CHR ''='') m3)"
    and r4: "sc' \<in> set (rmatch (seqs [Lit CHR 0x22,
      Group 1 (Plus (Chr (\<lambda>c. is_word c \<or> c = CHR ''-''))),
      Lit CHR 0x22, Lit CHR '']'', Lit CHR '' '']) m4)" by (rule rmatch_seqs_Cons_D)
  from r4 obtain m5 where 5: "m5 \<in> set (rmatch (Lit CHR 0x22) m4)"
    and r5: "sc' \<in> set (rmatch (seqs [
      Group 1 (Plus (Chr (\<lambda>c. is_word c \<or> c = CHR ''-''))),
      Lit CHR 0x22, Lit CHR '']'', Lit CHR '' '']) m5)" by (rule rmatch_seqs_Cons_D)
  from r5 obtain m6 where 6: "m6 \<in> set (rmatch
      (Group 1 (Plus (Chr (\<lambda>c. is_word c \<or> c = CHR ''-'')))) m5)"
    and r6: "sc' \<in> set (rmatch (seqs [Lit CHR 0x22, Lit CHR '']'', Lit CHR '' '']) m6)"
    by (rule rmatch_seqs_Cons_D)
  from r6 obtain m7 where 7: "m7 \<in> set (rmatch (Lit CHR 0x22) m6)"
    and r7: "sc' \<in> set (rmatch (seqs [Lit CHR '']'', Lit CHR '' '']) m7)"
    by (rule rmatch_seqs_Cons_D)
  from r7 obtain m8 where 8: "m8 \<in> set (rmatch (Lit CHR '']'') m7)"
    and r8: "sc' \<in> set (rmatch (seqs [Lit CHR '' '']) m8)"
    by (rule rmatch_seqs_Cons_D)
  from r8 obtain m9 where 9: "m9 \<in> set (rmatch (Lit CHR '' '') m8)"
    and r9: "sc' \<in> set (rmatch (seqs []) m9)"
    by (rule rmatch_seqs_Cons_D)
  from r9 have e: "sc' = m9" by simp
  from 6 obtain g where g: "g \<in> set (rmatch (Plus (Chr (\<lambda>c. is_word c \<or> c = CHR ''-''))) m5)"
    and g6: "fst m6 = fst g"
      "snd m6 = (snd g)(1 \<mapsto> take (length (fst m5) - length (fst g)) (fst m5))"
    by auto
  from g obtain h where h: "h \<in> set (rmatch (Chr (\<lambda>c. is_word c \<or> c = CHR ''-'')) m5)"
    and gs: "g \<in> set (rmatch (Star (Chr (\<lambda>c. is_word c \<or> c = CHR ''-''))) h)"
    unfolding Plus_def by auto
  from h obtain x where x: "fst m5 = x # fst h" "is_word x \<or> x = CHR ''-''"
    by (cases "fst m5") (auto split: if_splits)
  from rmatch_Star_Chr_D[OF gs] obtain zs where
    zs: "fst h = zs @ fst g" "\<forall>c \<in> set zs. is_word c \<or> c = CHR ''-''" by blast
  define ident where "ident = x # zs"
  have i: "isIdent ident" using x(2) zs(2) by (simp add: isIdent_def ident_def)
  have f5: "fst m5 = ident @ fst m6" using x(1) zs(1) g6(1) by (simp add: ident_def)
  then have c6: "snd m6 1 = Some ident" using g6 by simp
  have c9: "snd m9 1 = Some ident"
    using rmatch_Lit_D(2)[OF 7] rmatch_Lit_D(2)[OF 8] rmatch_Lit_D(2)[OF 9] c6 by simp
  have "s = idText ident @ fst m9"
    using rmatch_Lit_D(1)[OF 1] rmatch_Lit_D(1)[OF 2] rmatch_Lit_D(1)[OF 3]
      rmatch_Lit_D(1)[OF 4] rmatch_Lit_D(1)[OF 5] f5
      rmatch_Lit_D(1)[OF 7] rmatch_Lit_D(1)[OF 8] rmatch_Lit_D(1)[OF 9]
    by (simp add: idText_def)
  with i c9 e show ?thesis by blast
qed

lemma rmatch_Group_I:
  "m \<in> set (rmatch a sc) \<Longrightarrow>
     (fst m, (snd m)(i \<mapsto> take (length (fst sc) - length (fst m)) (fst sc)))
       \<in> set (rmatch (Group i a) sc)"
  by auto

lemma rmatch_id_I:
  assumes "isIdent ident"
  shows "rmatch idRegexp (idText ident @ rest, c0) \<noteq> []"
proof -
  let ?P = "\<lambda>c. is_word c \<or> c = CHR ''-''"
  from assms obtain x zs where i: "ident = x # zs" "?P x" "\<forall>c \<in> set zs. ?P c"
    by (cases ident) (auto simp: isIdent_def)
  let ?tail = "CHR 0x22 # CHR '']'' # CHR '' '' # rest"
  have pl: "(?tail, c0) \<in> set (rmatch (Plus (Chr ?P)) (ident @ ?tail, c0))"
    unfolding Plus_def i(1)
    by (rule rmatch_Seq_I[of "(zs @ ?tail, c0)"])
       (use i(2) in simp, rule rmatch_Star_Chr_I[OF i(3)])
  have g: "(?tail, c0(1 \<mapsto> ident)) \<in> set (rmatch (Group 1 (Plus (Chr ?P))) (ident @ ?tail, c0))"
    using rmatch_Group_I[OF pl, of 1] by (simp del: rmatch.simps)
  have "(rest, c0(1 \<mapsto> ident)) \<in> set (rmatch idRegexp (idText ident @ rest, c0))"
    unfolding idRegexp_def idText_def
    apply (simp only: append_Cons append_Nil append_assoc)
    apply (rule rmatch_seqs_Cons_I[OF rmatch_Lit_I])+
    apply (rule rmatch_seqs_Cons_I[OF g])
    apply (rule rmatch_seqs_Cons_I[OF rmatch_Lit_I])+
    apply simp
    done
  then show ?thesis by auto
qed

lemma run_split_unique:
  "x \<notin> set a \<Longrightarrow> x \<notin> set b \<Longrightarrow> a @ x # t = b @ x # t' \<Longrightarrow> a = b \<and> t = t'"
proof (induction a arbitrary: b)
  case Nil
  then show ?case by (cases b) auto
next
  case (Cons y a)
  then show ?case by (cases b) auto
qed

lemma idText_unique:
  assumes "isIdent a" and "isIdent b" and "idText a @ r = idText b @ r'"
  shows "a = b \<and> r = r'"
proof -
  have n: "CHR 0x22 \<notin> set a" "CHR 0x22 \<notin> set b"
    using assms(1,2) by (auto simp: isIdent_def is_word_def)
  from assms(3) have "a @ CHR 0x22 # (''] '' @ r) = b @ CHR 0x22 # (''] '' @ r')"
    by (simp add: idText_def)
  from run_split_unique[OF n this] show ?thesis by simp
qed

lemma exec_id_match:
  assumes "isIdent ident"
  shows "\<exists>c. exec idRegexp (idText ident @ rest) = Some (idText ident, c) \<and> c 1 = Some ident"
proof -
  from rmatch_id_I[OF assms, of rest "\<lambda>i. None"] obtain sc scs where
    r: "rmatch idRegexp (idText ident @ rest, \<lambda>i. None) = sc # scs"
    by (cases "rmatch idRegexp (idText ident @ rest, \<lambda>i. None)") auto
  then have "sc \<in> set (rmatch idRegexp (idText ident @ rest, \<lambda>i. None))" by simp
  from rmatch_id_D[OF this] obtain b where
    b: "isIdent b" "idText ident @ rest = idText b @ fst sc" "snd sc 1 = Some b" by blast
  from idText_unique[OF assms b(1,2)] have e: "ident = b" "rest = fst sc" by simp_all
  have "exec idRegexp (idText ident @ rest) = Some (idText ident, snd sc)"
    using r e(2) by (simp add: exec_def)
  with b(3) e(1) show ?thesis by simp
qed

lemma exec_id_no_match:
  assumes "\<forall>ident rest. isIdent ident \<longrightarrow> s \<noteq> idText ident @ rest"
  shows "exec idRegexp s = None"
proof (cases "rmatch idRegexp (s, \<lambda>i. None)")
  case Nil
  then show ?thesis by (simp add: exec_def)
next
  case (Cons sc scs)
  then have "sc \<in> set (rmatch idRegexp (s, \<lambda>i. None))" by simp
  from rmatch_id_D[OF this] assms show ?thesis by blast
qed

subsection \<open>An escape in closed form\<close>

lemma scanEscape_eq:
  assumes "pos st + 1 < length (str st)"
  shows "scanEscape st =
      (if str st ! (pos st + 1) \<in> {CHR ''*'', CHR ''_'', CHR ''`'', CHR ''<'',
                          CHR ''|'', CHR ''~'', backslash}
       then [str st ! (pos st + 1)]
       else [backslash, str st ! (pos st + 1)], st\<lparr>pos := pos st + 2\<rparr>)"
  using assms by (auto simp: scanEscape_def Let_def charAt_def isFormat_def)

text \<open>The last of \<open>k\<close> tokens served is the one that \<open>peek(k)\<close> reads.\<close>

lemma serve_last:
  assumes "name t = EOF" and "\<forall>u \<in> set q. name u \<noteq> EOF" and "0 < k"
  shows "last (serve k (q @ [t])) = (q @ [t]) ! min (k - 1) (length (q @ [t]) - 1)"
    and "(\<exists>u \<in> set (serve k (q @ [t])). name u = EOF) \<longrightarrow> name (last (serve k (q @ [t]))) = EOF"
proof -
  note s = serve_take[OF assms(1,2), of k]
  show "last (serve k (q @ [t])) = (q @ [t]) ! min (k - 1) (length (q @ [t]) - 1)"
  proof (cases "k \<le> length q")
    case True
    with assms(3) have ne: "take k q \<noteq> []" by auto
    from True assms(3) have "last (take k q) = q ! (k - 1)"
      by (simp add: last_conv_nth[OF ne] min_def)
    with ne show ?thesis using True assms(3) by (simp add: s nth_append min_def)
  next
    case False
    then have "replicate (k - length q) t \<noteq> []" by simp
    with False show ?thesis by (simp add: s nth_append min_def)
  qed
  show "(\<exists>u \<in> set (serve k (q @ [t])). name u = EOF) \<longrightarrow> name (last (serve k (q @ [t]))) = EOF"
  proof
    assume e: "\<exists>u \<in> set (serve k (q @ [t])). name u = EOF"
    have n: "\<forall>u \<in> set (take k q). name u \<noteq> EOF"
      using assms(2) by (auto dest: in_set_takeD)
    show "name (last (serve k (q @ [t]))) = EOF"
    proof (cases "k \<le> length q")
      case True
      then have "serve k (q @ [t]) = take k q" by (simp add: s)
      with e n show ?thesis by simp
    next
      case False
      then have "replicate (k - length q) t \<noteq> []" by simp
      then show ?thesis using assms(1) by (simp add: s)
    qed
  qed
qed

subsection \<open>A run of plain characters before an escape\<close>




subsection \<open>Text that is scanned verbatim\<close>

lemma slice_eq:
  assumes "drop p s = xs @ r" and "q = p + length xs"
  shows "slice s p q = xs"
  using assms by (simp add: slice_def)

lemma slice_hd:
  assumes "p < q" and "p < length s"
  shows "slice s p q = s ! p # slice s (p + 1) q"
proof -
  from assms(1) obtain k where k: "q - p = Suc k" by (cases "q - p") auto
  then have "q - (p + 1) = k" by simp
  with k assms(2) show ?thesis by (simp add: slice_def Cons_nth_drop_Suc[symmetric])
qed

lemma two_chars_iff:
  "(charAt s p = Some a \<and> charAt s (p + 1) = Some b) \<longleftrightarrow> take 2 (drop p s) = [a, b]"
proof -
  obtain xs where xs: "drop p s = xs" by simp
  from drop_charAt[OF xs, of 0] drop_charAt[OF xs, of 1] show ?thesis
    unfolding xs by (cases xs; cases "tl xs") auto
qed

lemma takeWhile_split:
  "drop p s = takeWhile P (drop p s) @ drop (p + length (takeWhile P (drop p s))) s"
proof -
  have "drop p s = takeWhile P (drop p s) @ dropWhile P (drop p s)" by simp
  also have "dropWhile P (drop p s) = drop (length (takeWhile P (drop p s))) (drop p s)"
    by (rule dropWhile_eq_drop)
  finally show ?thesis by (simp add: add.commute)
qed

lemma scanChars_loop_verbatim:
  assumes "lookahead (snd (scanChars_loop st out)) = lookahead st"
    and "backslash \<notin> set (slice (str st) (pos st) (pos (snd (scanChars_loop st out))))"
  shows "fst (scanChars_loop st out)
     = out @ slice (str st) (pos st) (pos (snd (scanChars_loop st out)))"
  using assms
proof (induction st out rule: scanChars_loop.induct)
  case (1 st out)
  note R = scanChars_loop.simps[of st out]
  show ?case
  proof (cases "pos st < length (str st)")
    case False
    then show ?thesis by (simp add: R slice_def)
  next
    case True
    note lt = True
    have step: "fst (scanChars_loop st out)
        = out @ slice (str st) (pos st) (pos (snd (scanChars_loop st out)))"
      if e: "scanChars_loop st out
          = scanChars_loop (st\<lparr>pos := pos st + 1\<rparr>) (out @ [str st ! pos st])"
        and ih: "lookahead (snd (scanChars_loop (st\<lparr>pos := pos st + 1\<rparr>) (out @ [str st ! pos st])))
            = lookahead (st\<lparr>pos := pos st + 1\<rparr>) \<Longrightarrow>
          backslash \<notin> set (slice (str (st\<lparr>pos := pos st + 1\<rparr>)) (pos (st\<lparr>pos := pos st + 1\<rparr>))
            (pos (snd (scanChars_loop (st\<lparr>pos := pos st + 1\<rparr>) (out @ [str st ! pos st]))))) \<Longrightarrow>
          fst (scanChars_loop (st\<lparr>pos := pos st + 1\<rparr>) (out @ [str st ! pos st]))
            = (out @ [str st ! pos st]) @ slice (str (st\<lparr>pos := pos st + 1\<rparr>))
                (pos (st\<lparr>pos := pos st + 1\<rparr>))
                (pos (snd (scanChars_loop (st\<lparr>pos := pos st + 1\<rparr>) (out @ [str st ! pos st]))))"
    proof -
      let ?s = "st\<lparr>pos := pos st + 1\<rparr>"
      let ?q = "pos (snd (scanChars_loop ?s (out @ [str st ! pos st])))"
      from scanChars_loop_post[of ?s "out @ [str st ! pos st]"]
      have "pos st + 1 \<le> ?q" by (auto simp: scanChars_post_def)
      then have h: "slice (str st) (pos st) ?q = str st ! pos st # slice (str st) (pos st + 1) ?q"
        using lt by (intro slice_hd) simp_all
      from "1.prems"(1)[unfolded e] have a: "lookahead (snd (scanChars_loop ?s (out @ [str st ! pos st])))
          = lookahead ?s" by simp
      from "1.prems"(2)[unfolded e] have "backslash \<notin> set (slice (str st) (pos st) ?q)" .
      from this[unfolded h] have b: "backslash \<notin> set (slice (str ?s) (pos ?s) ?q)" by simp
      show ?thesis unfolding e h using ih[OF a b] by simp
    qed
    show ?thesis
    proof (cases "charAt (str st) (pos st) = Some backslash")
      case True
      obtain e st' where e: "scanEscape st = (e, st')" by (cases "scanEscape st")
      from scanEscape_bound[OF lt] e have b: "pos st < pos st'" by simp
      have r: "scanChars_loop st out = scanChars_loop st' (out @ e)"
        using lt True e by (simp add: R)
      from scanChars_loop_post[of st' "out @ e"]
      have "pos st' \<le> pos (snd (scanChars_loop st' (out @ e)))"
        by (auto simp: scanChars_post_def)
      with b have "pos st < pos (snd (scanChars_loop st out))" by (simp add: r)
      from slice_hd[OF this lt] True lt "1.prems"(2) show ?thesis
        by (simp add: charAt_def)
    next
      case False
      note nb = False
      show ?thesis
      proof (cases "isChars (charAt (str st) (pos st))")
        case True
        have e: "scanChars_loop st out
            = scanChars_loop (st\<lparr>pos := pos st + 1\<rparr>) (out @ [str st ! pos st])"
          using lt nb True by (simp add: R)
        show ?thesis by (rule step[OF e "1.IH"(2)[OF lt refl refl nb True]])
      next
        case False
        note nc = False
        show ?thesis
        proof (cases "charAt (str st) (pos st) = Some CHR ''<''")
          case False
          with lt nb nc show ?thesis by (simp add: R slice_def)
        next
          case True
          note isl = True
          show ?thesis
          proof (cases "tryScanTag st")
            case (Some a)
            obtain tag st1 where a: "a = (tag, st1)" by (cases a)
            note t = Some[unfolded a]
            have l1: "lookahead st1 = lookahead st" by (subst tryScanTag_SomeD[OF t]) simp
            have "lookahead (snd (scanChars_loop st out)) \<noteq> lookahead st"
              using lt nb nc isl t l1
              by (cases "opaqueName tag") (simp_all add: R split_beta scanToEndTag_snd)
            with "1.prems"(1) show ?thesis by simp
          next
            case None
            note nt = None
            show ?thesis
            proof (cases "tryScanComment st")
              case (Some a)
              obtain c st1 where a: "a = (c, st1)" by (cases a)
              note t = Some[unfolded a]
              have l1: "lookahead st1 = lookahead st" by (subst tryScanComment_SomeD[OF t]) simp
              have "lookahead (snd (scanChars_loop st out)) \<noteq> lookahead st"
                using lt nb nc isl nt t l1 by (simp add: R)
              with "1.prems"(1) show ?thesis by simp
            next
              case None
              have e: "scanChars_loop st out
                  = scanChars_loop (st\<lparr>pos := pos st + 1\<rparr>) (out @ [str st ! pos st])"
                using lt nb nc isl nt None by (simp add: R)
              show ?thesis by (rule step[OF e "1.IH"(3)[OF lt refl refl nb nc isl nt None]])
            qed
          qed
        qed
      qed
    qed
  qed
qed

subsection \<open>A call that enqueues one token\<close>

text \<open>
  A token that a call enqueues alone is located on what the call consumed, and holds it
  verbatim unless a backslash was consumed.
\<close>

definition exact :: "tokenizer \<Rightarrow> tokenizer \<Rightarrow> bool" where
  "exact st st' \<longleftrightarrow>
     (\<forall>t. queue st' = queue st @ [t] \<longrightarrow>
        start_off t = pos st \<and> end_off t = pos st'
        \<and> (backslash \<notin> set (slice (str st) (pos st) (pos st')) \<longrightarrow>
             contents t = Some (slice (str st) (pos st) (pos st'))))"

lemma enqueue_exact:
  assumes q: "queue X = queue st @ pre" and p: "offset p = pos st"
    and c: "pre = [] \<Longrightarrow> lookahead X = [] \<Longrightarrow>
        backslash \<notin> set (slice (str st) (pos st) (pos X)) \<Longrightarrow> c = slice (str st) (pos st) (pos X)"
  shows "exact st (enqueue X (tok n c) p)"
  unfolding exact_def
proof (intro allI impI)
  fix t
  assume "queue (enqueue X (tok n c) p) = queue st @ [t]"
  with q have e: "pre @ fst (locate X (tok n c) p) # lookahead X = [t]" by simp
  then have pe: "pre = []" by (cases pre) auto
  with e have l: "lookahead X = []" and t: "t = fst (locate X (tok n c) p)" by simp_all
  show "start_off t = pos st \<and> end_off t = pos (enqueue X (tok n c) p)
        \<and> (backslash \<notin> set (slice (str st) (pos st) (pos (enqueue X (tok n c) p))) \<longrightarrow>
             contents t = Some (slice (str st) (pos st) (pos (enqueue X (tok n c) p))))"
    using c[OF pe l] by (simp add: t p)
qed

lemma dispatch_exact:
  assumes lt: "pos st < length (str st)" and la0: "lookahead st = []"
  shows "\<exists>st'. dispatch st = Inr st' \<and> exact st st'"
proof -
  note length_greater_0_conv [simp del]
  define sp where "sp = getLocation st"
  define ch where "ch = str st ! pos st"
  have chr: "charAt (str st) (pos st) = Some ch" using lt by (simp add: charAt_def ch_def)
  have sp: "offset sp = pos st" by (simp add: sp_def)
  note unf = dispatch_def Let_def chr sp_def[symmetric] option.simps
  have one: "slice (str st) (pos st) (pos st + 1) = [ch]"
    using lt by (simp add: slice_def ch_def take_Suc_conv_app_nth Cons_nth_drop_Suc[symmetric])
  have single: "exact st (enqueue (st\<lparr>pos := pos st + 1\<rparr>) (tok n [ch]) sp)" for n
    by (rule enqueue_exact[where pre="[]"]) (use sp one in simp_all)
  have plain: "exact st (enqueue (snd (scanChars st)) (tok Text (fst (scanChars st))) sp)"
  proof (rule enqueue_exact[where pre="[]"])
    assume "lookahead (snd (scanChars st)) = []"
      and "backslash \<notin> set (slice (str st) (pos st) (pos (snd (scanChars st))))"
    with scanChars_loop_verbatim[of st "[]"] la0
    show "fst (scanChars st) = slice (str st) (pos st) (pos (snd (scanChars st)))"
      by (simp add: scanChars_def)
  qed (use sp in \<open>simp_all add: scanChars_def\<close>)
  show ?thesis
  proof (cases "ch = CHR ''*'' \<or> ch = CHR ''_'' \<or> ch = CHR ''`'' \<or> ch = CHR ''|'' \<or> ch = CHR ''~''")
    case True
    with single[of Star_tok] single[of Underscore] single[of Tick] single[of Pipe] single[of Tilde]
    show ?thesis by (auto simp: unf)
  next
    case False
    note nd = False
    show ?thesis
    proof (cases "ch = CHR ''\<newline>''")
      case True
      define np where "np = newline_loop (str st) (pos st + 1)"
      define st2 where "st2 = st\<lparr>newline := True, pos := np\<rparr>"
      have f2: "str st2 = str st" "queue st2 = queue st" "lookahead st2 = []" "pos st2 = np"
        using la0 by (simp_all add: st2_def)
      have 1: "np = pos st + 1 \<Longrightarrow> exact st (enqueue st2 (tok Linebreak ''\<newline>'') sp)"
        by (rule enqueue_exact[where pre="[]"]) (use f2 sp one True in simp_all)
      have 2: "exact st (enqueue st2 (tok Parabreak (slice (str st2) (pos st) np)) sp)"
        by (rule enqueue_exact[where pre="[]"]) (use f2 sp in simp_all)
      from True nd 1 2 show ?thesis
        by (auto simp: unf np_def st2_def)
    next
      case False
      note nn = False
      show ?thesis
      proof (cases "isWhitespace (Some ch)")
        case True
        define ws where "ws = takeWhile (\<lambda>c. isWhitespace (Some c)) (drop (pos st) (str st))"
        define st1 where "st1 = st\<lparr>pos := pos st + length ws\<rparr>"
        have sw: "scanWhitespace st = (ws, st1)"
          by (simp add: scanWhitespace_eq ws_def st1_def)
        have "exact st (enqueue st1 (tok Whitespace ws) sp)"
          by (rule enqueue_exact[where pre="[]"])
            (use sp in \<open>simp_all add: st1_def ws_def slice_def take_length_takeWhile\<close>)
        with True nd nn show ?thesis by (auto simp: unf sw)
      next
        case False
        note nw = False
        show ?thesis
        proof (cases "isChars (Some ch)")
          case True
          with plain nd nn nw show ?thesis by (auto simp: unf split_beta)
        next
          case False
          with nd nn nw have isl: "ch = CHR ''<''"
            using classification_exhaustive[of "Some ch"] by auto
          note nc = False
          show ?thesis
          proof (cases "charAt (str st) (pos st + 1) = Some CHR ''!''
               \<and> charAt (str st) (pos st + 2) = Some CHR ''-''
               \<and> charAt (str st) (pos st + 3) = Some CHR ''-''")
            case True
            show ?thesis
            proof (cases "tryScanComment st")
              case None
              with True nd nn nw nc isl plain show ?thesis
                by (auto simp: unf textFallback_def split_beta)
            next
              case (Some a)
              obtain c st2 where a: "a = (c, st2)" by (cases a)
              note t = Some[unfolded a]
              from tryScanComment_frame(3)[OF t] obtain r where
                d: "drop (pos st) (str st) = c @ r" ..
              have f2: "queue st2 = queue st" "pos st2 = pos st + length c"
                by (subst tryScanComment_SomeD[OF t], simp)+
              have "exact st (enqueue st2 (tok Comment c) sp)"
                by (rule enqueue_exact[where pre="[]"])
                  (use f2 sp slice_eq[OF d refl] in simp_all)
              with True nd nn nw nc isl t show ?thesis by (auto simp: unf)
            qed
          next
            case False
            note ncm = False
            show ?thesis
            proof (cases "tryScanTag st")
              case None
              with ncm nd nn nw nc isl plain show ?thesis
                by (auto simp: unf textFallback_def split_beta)
            next
              case (Some a)
              obtain tag st2 where a: "a = (tag, st2)" by (cases a)
              note t = Some[unfolded a]
              from tryScanTag_frame(3)[OF t] obtain r where
                d: "drop (pos st) (str st) = fst tag @ r" ..
              have f2: "queue st2 = queue st" "pos st2 = pos st + length (fst tag)"
                "str st2 = str st"
                by (subst tryScanTag_SomeD[OF t], simp)+
              show ?thesis
              proof (cases "opaqueName tag")
                case None
                have "exact st (enqueue st2 (tok Tag (fst tag)) sp)"
                  by (rule enqueue_exact[where pre="[]"])
                    (use f2 sp slice_eq[OF d refl] in simp_all)
                with ncm nd nn nw nc isl t None show ?thesis by (auto simp: unf)
              next
                case (Some n)
                define st3 where "st3 = scanToEndTag_loop n st2"
                have m3: "pos st2 \<le> pos st3"
                  using scanToEndTag_loop_mono[of st2 n] by (simp add: st3_def)
                have sl: "slice (str st) (pos st) (pos st3) = fst tag @ fst (scanToEndTag n st2)"
                  using slice_prefix[OF d, of "pos st3 - pos st2"] m3 f2
                  by (simp add: scanToEndTag_snd st3_def)
                have "exact st (enqueue st3 (tok OpaqueTag (fst tag @ fst (scanToEndTag n st2))) sp)"
                  by (rule enqueue_exact[where pre="[]"])
                    (use f2 sp sl in \<open>simp_all add: st3_def\<close>)
                with ncm nd nn nw nc isl t Some show ?thesis
                  by (auto simp: unf split_beta scanToEndTag_snd st3_def)
              qed
            qed
          qed
        qed
      qed
    qed
  qed
qed

lemma lineStart_exact:
  assumes lt: "pos st < length (str st)" and la0: "lookahead st = []"
  shows "case lineStart st of Returned st' \<Rightarrow> exact st st' | FallThrough st' \<Rightarrow> True"
proof -
  note length_greater_0_conv [simp del]
  define ws where "ws = takeWhile (\<lambda>c. isWhitespace (Some c)) (drop (pos st) (str st))"
  define st1 where "st1 = st\<lparr>newline := False, pos := pos st + length ws\<rparr>"
  define sp where "sp = getLocation (st\<lparr>newline := False\<rparr>)"
  have sw: "scanWhitespace (st\<lparr>newline := False\<rparr>) = (ws, st1)"
    by (simp add: scanWhitespace_eq ws_def st1_def)
  have sp: "offset sp = pos st" by (simp add: sp_def)
  have f1: "str st1 = str st" "queue st1 = queue st" "lookahead st1 = []"
    "pos st1 = pos st + length ws"
    using la0 by (simp_all add: st1_def)
  have dws: "drop (pos st) (str st) = ws @ drop (pos st1) (str st)"
    unfolding ws_def f1(4) by (rule takeWhile_split)
  note unf = lineStart_def Let_def sw sp_def[symmetric] split_conv
  have wstok: "exact st (enqueue st1 (tok Whitespace ws) sp)"
    by (rule enqueue_exact[where pre="[]"]) (use f1 sp slice_eq[OF dws refl] in simp_all)
  show ?thesis
  proof (cases "pos st1 \<ge> length (str st1)")
    case True
    with wstok show ?thesis by (auto simp: unf)
  next
    case False
    note in1 = False
    show ?thesis
    proof (cases "is_digit (str st1 ! pos st1)")
      case True
      define ds where "ds = takeWhile is_digit (drop (pos st1) (str st1))"
      define st2 where "st2 = st1\<lparr>pos := pos st1 + length ds\<rparr>"
      have sd: "scanDigits st1 = (ds, st2)" by (simp add: scanDigits_eq ds_def st2_def)
      have f2: "str st2 = str st" "queue st2 = queue st" "lookahead st2 = []"
        "pos st2 = pos st + length ws + length ds"
        using f1 by (simp_all add: st2_def)
      have dds: "drop (pos st1) (str st) = ds @ drop (pos st2) (str st)"
        unfolding ds_def f1(1) st2_def using takeWhile_split[of "pos st1" "str st" is_digit]
        by simp
      show ?thesis
      proof (cases "charAt (str st2) (pos st2) = Some CHR ''.''
                \<and> charAt (str st2) (pos st2 + 1) = Some CHR '' ''")
        case True
        then have "take 2 (drop (pos st2) (str st)) = ''. ''"
          by (simp only: two_chars_iff f2(1))
        then have "drop (pos st2) (str st) = ''. '' @ drop 2 (drop (pos st2) (str st))"
          by (metis append_take_drop_id)
        with dws dds have d: "drop (pos st) (str st)
            = (ws @ ds @ ''. '') @ drop 2 (drop (pos st2) (str st))" by simp
        have "exact st (enqueue (st2\<lparr>pos := pos st2 + 2\<rparr>) (tok Ol (ws @ ds @ ''. '')) sp)"
          by (rule enqueue_exact[where pre="[]"])
            (use f2 sp slice_eq[OF d refl] in \<open>simp_all add: add.assoc\<close>)
        with in1 \<open>is_digit (str st1 ! pos st1)\<close> True show ?thesis by (auto simp: unf sd)
      next
        case False
        note nol = False
        define wt where "wt = fst (locate st2 (tok Whitespace ws) sp)"
        define st3 where "st3 = (if length ws > 0 then enqueue st2 (tok Whitespace ws) sp else st2)"
        define pre where "pre = (if length ws > 0 then [wt] else [])"
        have f3: "queue st3 = queue st @ pre" using f2 by (simp add: st3_def pre_def wt_def)
        have "exact st (enqueue (snd (scanChars st3)) (tok Text (ds @ fst (scanChars st3))) sp)"
        proof (rule enqueue_exact[where pre=pre])
          show "queue (snd (scanChars st3)) = queue st @ pre" using f3 by simp
          show "offset sp = pos st" by (rule sp)
          assume pe: "pre = []" and l: "lookahead (snd (scanChars st3)) = []"
            and nb: "backslash \<notin> set (slice (str st) (pos st) (pos (snd (scanChars st3))))"
          from pe have w0: "ws = []" by (cases ws) (simp_all add: pre_def)
          then have s3: "st3 = st2" by (simp add: st3_def)
          let ?q = "pos (snd (scanChars st2))"
          from scanChars_loop_post[of st2 "[]"] have m: "pos st2 \<le> ?q"
            by (auto simp: scanChars_post_def scanChars_def)
          from dws dds w0 have d: "drop (pos st) (str st) = ds @ drop (pos st2) (str st)" by simp
          have sl: "slice (str st) (pos st) ?q = ds @ slice (str st) (pos st2) ?q"
            using slice_prefix[OF d, of "?q - pos st2"] m f2(4) w0 by simp
          with nb s3 have nb2: "backslash \<notin> set (slice (str st2) (pos st2) ?q)"
            by (simp add: f2(1))
          from scanChars_loop_verbatim[of st2 "[]"] l s3 f2(3) nb2
          have "fst (scanChars st2) = slice (str st) (pos st2) ?q"
            by (simp add: scanChars_def f2(1))
          with sl s3 show "ds @ fst (scanChars st3) = slice (str st) (pos st) (pos (snd (scanChars st3)))"
            by simp
        qed
        moreover have "lineStart st
            = Returned (enqueue (snd (scanChars st3)) (tok Text (ds @ fst (scanChars st3))) sp)"
          using in1 \<open>is_digit (str st1 ! pos st1)\<close> nol
          by (auto simp: unf sd st3_def split_beta)
        ultimately show ?thesis by simp
      qed
    next
      case False
      note nd = False
      show ?thesis
      proof (cases "charAt (str st1) (pos st1) = Some CHR ''*''
                \<and> charAt (str st1) (pos st1 + 1) = Some CHR '' ''")
        case True
        then have "take 2 (drop (pos st1) (str st)) = ''* ''"
          by (simp only: two_chars_iff f1(1))
        then have "drop (pos st1) (str st) = ''* '' @ drop 2 (drop (pos st1) (str st))"
          by (metis append_take_drop_id)
        with dws have d: "drop (pos st) (str st)
            = (ws @ ''* '') @ drop 2 (drop (pos st1) (str st))" by simp
        have "exact st (enqueue (st1\<lparr>pos := pos st1 + 2\<rparr>) (tok Ul (ws @ ''* '')) sp)"
          by (rule enqueue_exact[where pre="[]"])
            (use f1 sp slice_eq[OF d refl] in \<open>simp_all add: add.assoc\<close>)
        with in1 nd True show ?thesis by (auto simp: unf)
      next
        case False
        note nul = False
        show ?thesis
        proof (cases "charAt (str st1) (pos st1) = Some CHR ''<''")
          case False
          with in1 nd nul wstok show ?thesis by (auto simp: unf)
        next
          case True
          note isl = True
          show ?thesis
          proof (cases "tryScanTag st1")
            case (Some a)
            obtain tag st2 where a: "a = (tag, st2)" by (cases a)
            note t = Some[unfolded a]
            from tryScanTag_frame(3)[OF t] obtain r where
              dt: "drop (pos st1) (str st) = fst tag @ r" unfolding f1(1) ..
            have f2: "str st2 = str st" "queue st2 = queue st" "lookahead st2 = []"
              "pos st2 = pos st + length ws + length (fst tag)"
              by (subst tryScanTag_SomeD[OF t], simp add: f1)+
            from dws dt have d: "drop (pos st) (str st) = (ws @ fst tag) @ r" by simp
            show ?thesis
            proof (cases "opaqueName tag")
              case None
              define wt where "wt = fst (locate st2 (tok Whitespace ws) sp)"
              define st3 where
                "st3 = (if length ws > 0 then enqueue st2 (tok Whitespace ws) sp else st2)"
              define pre where "pre = (if length ws > 0 then [wt] else [])"
              have f3: "queue st3 = queue st @ pre" "pos st3 = pos st2"
                using f2 by (simp_all add: st3_def pre_def wt_def)
              have "exact st (enqueue st3 (tok Tag (fst tag)) sp)"
              proof (rule enqueue_exact[where pre=pre])
                show "queue st3 = queue st @ pre" by (rule f3)
                show "offset sp = pos st" by (rule sp)
                assume pe: "pre = []"
                from pe have w0: "ws = []" by (cases ws) (simp_all add: pre_def)
                from slice_eq[OF d refl] w0 f2(4) f3(2)
                show "fst tag = slice (str st) (pos st) (pos st3)" by simp
              qed
              moreover have "lineStart st = Returned (enqueue st3 (tok Tag (fst tag)) sp)"
                using in1 nd nul isl t None by (auto simp: unf st3_def)
              ultimately show ?thesis by simp
            next
              case (Some n)
              define st3 where "st3 = scanToEndTag_loop n st2"
              have m3: "pos st2 \<le> pos st3"
                using scanToEndTag_loop_mono[of st2 n] by (simp add: st3_def)
              have sl: "slice (str st) (pos st) (pos st3)
                  = ws @ fst tag @ fst (scanToEndTag n st2)"
                using slice_prefix[OF d, of "pos st3 - pos st2"] m3 f2
                by (simp add: scanToEndTag_snd st3_def add.assoc)
              have "exact st (enqueue st3
                  (tok OpaqueTag (ws @ fst tag @ fst (scanToEndTag n st2))) sp)"
                by (rule enqueue_exact[where pre="[]"])
                  (use f2 sp sl in \<open>simp_all add: st3_def\<close>)
              with in1 nd nul isl t Some show ?thesis
                by (auto simp: unf split_beta scanToEndTag_snd st3_def)
            qed
          next
            case None
            note nt = None
            show ?thesis
            proof (cases "tryScanComment st1")
              case (Some a)
              obtain c st2 where a: "a = (c, st2)" by (cases a)
              note t = Some[unfolded a]
              from tryScanComment_frame(3)[OF t] obtain r where
                dc: "drop (pos st1) (str st) = c @ r" unfolding f1(1) ..
              have f2: "queue st2 = queue st" "pos st2 = pos st + length ws + length c"
                by (subst tryScanComment_SomeD[OF t], simp add: f1)+
              from dws dc have d: "drop (pos st) (str st) = (ws @ c) @ r" by simp
              have "exact st (enqueue st2 (tok Comment (ws @ c)) sp)"
                by (rule enqueue_exact[where pre="[]"])
                  (use f2 sp slice_eq[OF d refl] in \<open>simp_all add: add.assoc\<close>)
              with in1 nd nul isl nt t show ?thesis by (auto simp: unf)
            next
              case None
              with in1 nd nul isl nt show ?thesis by (auto simp: unf)
            qed
          qed
        qed
      qed
    qed
  qed
qed

text \<open>
  The one case in which the line start loses what it scanned: held whitespace before
  a \<open><\<close> that opens neither a tag nor a comment.
\<close>

definition dropsWhitespace :: "tokenizer \<Rightarrow> bool" where
  "dropsWhitespace st \<longleftrightarrow>
     pos st < length (str st) \<and> newline st
     \<and> (case lineStart st of FallThrough st1 \<Rightarrow> pos st < pos st1 | Returned st' \<Rightarrow> False)"

lemma matchToken_exact:
  assumes lt: "pos st < length (str st)" and la0: "lookahead st = []"
    and nd: "\<not> dropsWhitespace st"
  shows "\<exists>st'. matchToken st = Inr st' \<and> exact st st'"
proof (cases "newline st")
  case False
  with dispatch_exact[OF lt la0] lt show ?thesis by (simp add: matchToken_def)
next
  case True
  show ?thesis
  proof (cases "lineStart st")
    case (Returned st')
    with lineStart_exact[OF lt la0] True lt show ?thesis by (simp add: matchToken_def)
  next
    case (FallThrough st1)
    with lineStart_post[OF lt la0] have f: "st1 = st\<lparr>newline := False, pos := pos st1\<rparr>"
      "pos st \<le> pos st1" "pos st1 < length (str st)" by simp_all
    from nd lt True FallThrough have "\<not> pos st < pos st1" by (simp add: dropsWhitespace_def)
    with f(2) have p: "pos st1 = pos st" by simp
    have s1: "str st1 = str st" "queue st1 = queue st" "lookahead st1 = []"
      by (subst f(1), simp add: la0)+
    from dispatch_exact[of st1] f(3) s1 obtain st' where
      d: "dispatch st1 = Inr st'" and e: "exact st1 st'" by auto
    from e have "exact st st'" by (simp add: exact_def p s1)
    with d FallThrough True lt show ?thesis by (simp add: matchToken_def)
  qed
qed

text \<open>
  The runs in which every call of \<open>matchToken\<close> enqueues one token and loses no
  whitespace.
\<close>

function one_token_steps :: "tokenizer \<Rightarrow> bool" where
  "one_token_steps st =
     (if eof st \<or> length (str st) < pos st \<or> lookahead st \<noteq> [] then True
      else case matchToken st of
             Inl e \<Rightarrow> True
           | Inr st' \<Rightarrow> length (queue st') = length (queue st) + 1 \<and> \<not> dropsWhitespace st
                \<and> one_token_steps st')"
  by pat_completeness auto
termination
proof (relation "measure (\<lambda>st. (length (str st) - pos st) + (if eof st then 0 else 1))", goal_cases)
  case 1
  show ?case by simp
next
  case (2 st st')
  then have ne: "\<not> eof st" and le: "pos st \<le> length (str st)" and la: "lookahead st = []"
    and m: "matchToken st = Inr st'" by auto
  show ?case
  proof (cases "pos st < length (str st)")
    case True
    from matchToken_step[OF True la] m have "step_post st st'" by simp
    then show ?thesis using True ne by (auto simp: step_post_def)
  next
    case False
    with le have "pos st = length (str st)" by simp
    from matchToken_at_end[OF this la] m ne show ?thesis by auto
  qed
qed

declare one_token_steps.simps [simp del]

text \<open>Tokens that lie one after the other from \<open>p\<close> on, and where they end.\<close>

fun tiles :: "nat \<Rightarrow> token list \<Rightarrow> bool" where
  "tiles p [] = True"
| "tiles p (t # ts) = (start_off t = p \<and> p \<le> end_off t \<and> tiles (end_off t) ts)"

fun chain_end :: "nat \<Rightarrow> token list \<Rightarrow> nat" where
  "chain_end p [] = p"
| "chain_end p (t # ts) = chain_end (end_off t) ts"

lemma tiles_append:
  "tiles p (xs @ ys) \<longleftrightarrow> tiles p xs \<and> tiles (chain_end p xs) ys"
  by (induction xs arbitrary: p) auto

lemma chain_end_append:
  "chain_end p (xs @ ys) = chain_end (chain_end p xs) ys"
  by (induction xs arbitrary: p) auto

lemma tiles_take: "tiles p xs \<Longrightarrow> tiles p (take n xs)"
proof (induction xs arbitrary: p n)
  case Nil
  show ?case by simp
next
  case (Cons x xs)
  then show ?case by (cases n) auto
qed

lemma tiles_replicate:
  "start_off t = p \<Longrightarrow> end_off t = p \<Longrightarrow> tiles p (replicate k t)"
  by (induction k) auto

text \<open>The contents of tokens that hold their part of the input verbatim.\<close>

definition verbatim :: "string \<Rightarrow> token list \<Rightarrow> bool" where
  "verbatim s ts \<longleftrightarrow>
     (\<forall>t \<in> set ts. \<forall>c. contents t = Some c \<longrightarrow>
        backslash \<notin> set (slice s (start_off t) (end_off t)) \<longrightarrow>
        c = slice s (start_off t) (end_off t))"

lemma stream_tiles:
  "wf st \<Longrightarrow> one_token_steps st \<Longrightarrow> tiles p (queue st) \<Longrightarrow> chain_end p (queue st) = pos st \<Longrightarrow>
     verbatim (str st) (queue st) \<Longrightarrow>
     (\<forall>t \<in> set (queue st). name t = EOF \<longrightarrow> start_off t = end_off t) \<Longrightarrow>
     tiles p (stream st) \<and> verbatim (str st) (stream st)
     \<and> (\<forall>t \<in> set (stream st). name t = EOF \<longrightarrow> start_off t = end_off t)"
proof (induction st rule: stream.induct)
  case (1 st)
  from "1.prems"(1) have la: "lookahead st = []" and le: "pos st \<le> length (str st)"
    by (simp_all add: wf_def)
  show ?case
  proof (cases "eof st")
    case True
    with "1.prems" show ?thesis by (simp add: stream_eof)
  next
    case False
    from matchToken_wf[OF "1.prems"(1) False] obtain st' where
      m: "matchToken st = Inr st'" and w: "wf st'" and s: "stream st' = stream st"
      and r: "str st' = str st" by blast
    have c: "\<not> (eof st \<or> length (str st) < pos st \<or> lookahead st \<noteq> [])"
      using False le la by simp
    from "1.prems"(2) c m have o: "length (queue st') = length (queue st) + 1"
      "\<not> dropsWhitespace st" "one_token_steps st'"
      by (simp_all add: one_token_steps.simps[of st])
    have "\<exists>t. queue st' = queue st @ [t] \<and> start_off t = pos st \<and> end_off t = pos st'
        \<and> pos st \<le> pos st' \<and> (name t = EOF \<longrightarrow> start_off t = end_off t)
        \<and> (\<forall>c. contents t = Some c \<longrightarrow>
              backslash \<notin> set (slice (str st) (start_off t) (end_off t)) \<longrightarrow>
              c = slice (str st) (start_off t) (end_off t))"
    proof (cases "pos st < length (str st)")
      case True
      from matchToken_step[OF True la] m have sp: "step_post st st'" by simp
      then obtain new where n: "queue st' = queue st @ new" "pos st < pos st'"
        "\<forall>t \<in> set new. name t \<noteq> EOF"
        unfolding step_post_def by blast
      with o(1) obtain t where t: "new = [t]" by (cases new) auto
      from matchToken_exact[OF True la o(2)] m have "exact st st'" by simp
      with n(1) t have e: "start_off t = pos st" "end_off t = pos st'"
        "backslash \<notin> set (slice (str st) (pos st) (pos st')) \<longrightarrow>
             contents t = Some (slice (str st) (pos st) (pos st'))"
        by (simp_all add: exact_def)
      from n t e show ?thesis by (intro exI[of _ t]) auto
    next
      case False
      with le have e: "pos st = length (str st)" by simp
      from matchToken_at_end[OF e la] m obtain t where
        "pos st' = pos st" "queue st' = queue st @ [t]" "contents t = None"
        "start_off t = pos st" "end_off t = pos st" by auto
      then show ?thesis by (intro exI[of _ t]) simp
    qed
    then obtain t where t: "queue st' = queue st @ [t]" "start_off t = pos st"
      "end_off t = pos st'" "pos st \<le> pos st'" "name t = EOF \<longrightarrow> start_off t = end_off t"
      "\<forall>c. contents t = Some c \<longrightarrow>
              backslash \<notin> set (slice (str st) (start_off t) (end_off t)) \<longrightarrow>
              c = slice (str st) (start_off t) (end_off t)"
      by blast
    have i1: "tiles p (queue st')"
      using "1.prems"(3,4) t(1-4) by (simp add: tiles_append)
    have i2: "chain_end p (queue st') = pos st'"
      using t(1,3) by (simp add: chain_end_append)
    have i3: "verbatim (str st') (queue st')"
      using "1.prems"(5) t(1,6) r by (auto simp: verbatim_def)
    have i4: "\<forall>u \<in> set (queue st'). name u = EOF \<longrightarrow> start_off u = end_off u"
      using "1.prems"(6) t(1,5) by auto
    from "1.IH"[OF c m w o(3) i1 i2 i3 i4] r s show ?thesis by simp
  qed
qed

lemma tiles_serve:
  assumes "tiles p (q @ [t])" and "name t = EOF" and "\<forall>u \<in> set q. name u \<noteq> EOF"
    and "start_off t = end_off t"
  shows "tiles p (serve n (q @ [t]))"
proof -
  from assms(1) have a: "tiles p q" "start_off t = chain_end p q"
    by (simp_all add: tiles_append)
  show ?thesis
  proof (cases "n \<le> length q")
    case True
    then show ?thesis using a(1) by (simp add: serve_take[OF assms(2,3)] tiles_take)
  next
    case False
    then have "take n q = q" by simp
    then show ?thesis
      using a assms(4) tiles_replicate[of t "chain_end p q" "n - length q"]
      by (simp add: serve_take[OF assms(2,3)] tiles_append)
  qed
qed

lemma verbatim_serve:
  assumes "verbatim s (q @ [t])" and "name t = EOF" and "\<forall>u \<in> set q. name u \<noteq> EOF"
  shows "verbatim s (serve n (q @ [t]))"
proof -
  have "set (take n q @ replicate (n - length q) t) \<subseteq> set (q @ [t])"
    by (auto dest: in_set_takeD)
  with assms(1) show ?thesis
    unfolding serve_take[OF assms(2,3)] verbatim_def by blast
qed

section \<open>The claims\<close>

text \<open>
  C8. Tokenization itself never raises.  Every character, and also \<open>undefined\<close>, falls
  under one of the rules of the dispatch (a delimiter, a newline, whitespace, plain text
  or \<open><\<close>), so the fallback branch that raises is never taken: \<open>dispatch\<close> and
  \<open>matchToken\<close> return a state from every state, \<open>peek\<close> returns from every state, and
  any number of \<open>next\<close> calls on a fresh tokenizer return tokens.
\<close>

theorem tokenization_never_raises:
  "(chr = Some CHR ''*'' \<or> chr = Some CHR ''_'' \<or> chr = Some CHR ''`'' \<or> chr = Some CHR ''|''
      \<or> chr = Some CHR ''~'' \<or> chr = Some CHR ''\<newline>'' \<or> isWhitespace chr \<or> isChars chr
      \<or> chr = Some CHR ''<'')
   \<and> (\<exists>st'. dispatch st = Inr st')
   \<and> (\<exists>st'. matchToken st = Inr st')
   \<and> (\<exists>r. peek k st = Inr r)
   \<and> (\<exists>ts st'. nexts n (Tokenizer s) = Inr (ts, st'))"
proof (intro conjI)
  show "chr = Some CHR ''*'' \<or> chr = Some CHR ''_'' \<or> chr = Some CHR ''`'' \<or> chr = Some CHR ''|''
      \<or> chr = Some CHR ''~'' \<or> chr = Some CHR ''\<newline>'' \<or> isWhitespace chr \<or> isChars chr
      \<or> chr = Some CHR ''<''"
    by (rule classification_exhaustive)
  show "\<exists>st'. dispatch st = Inr st'" by (rule dispatch_total)
  show "\<exists>st'. matchToken st = Inr st'" by (rule matchToken_total)
  show "\<exists>r. peek k st = Inr r" by (rule peek_total)
  show "\<exists>ts st'. nexts n (Tokenizer s) = Inr (ts, st')"
    using nexts_serve[OF Tokenizer_wf, of n s] by blast
qed

theorem tokenization_never_raises_witness:
  "(\<exists>st'. matchToken (Tokenizer ''a<'') = Inr st') \<and> (\<exists>r. peek 3 (Tokenizer ''a<'') = Inr r)
   \<and> (\<exists>ts st'. nexts 4 (Tokenizer ''a<'') = Inr (ts, st'))"
  using tokenization_never_raises[of "Some CHR ''a''" "Tokenizer ''a<''" 3 4 "''a<''"] by simp

text \<open>
  C9. Tokenization terminates.  A call of \<open>matchToken\<close> before the end of the input
  advances the position, stays inside the input and enqueues at least one token; at the
  end of the input it sets \<open>eof\<close> and enqueues the end-of-input token.  On a fresh tokenizer
  over \<open>s\<close>, at most \<open>length s\<close> calls of \<open>next\<close> return another token, and the call after
  them returns the end-of-input token.
\<close>

theorem tokenization_terminates:
  "(pos st < length (str st) \<and> lookahead st = [] \<longrightarrow>
      (\<exists>st'. matchToken st = Inr st' \<and> pos st < pos st' \<and> pos st' \<le> length (str st')
         \<and> str st' = str st \<and> eof st' = eof st \<and> length (queue st) < length (queue st')))
   \<and> (pos st = length (str st) \<and> lookahead st = [] \<longrightarrow>
      (\<exists>st'. matchToken st = Inr st' \<and> eof st' \<and> pos st' = pos st
         \<and> length (queue st) < length (queue st')))
   \<and> (\<exists>n \<le> length s. \<exists>ts st'. nexts (Suc n) (Tokenizer s) = Inr (ts, st')
         \<and> name (last ts) = EOF \<and> (\<forall>t \<in> set (butlast ts). name t \<noteq> EOF))"
proof (intro conjI impI)
  assume a: "pos st < length (str st) \<and> lookahead st = []"
  then obtain st' where m: "matchToken st = Inr st'" and p: "step_post st st'"
    using matchToken_step[of st] by blast
  from p matchToken_queue[OF m] m
  show "\<exists>st'. matchToken st = Inr st' \<and> pos st < pos st' \<and> pos st' \<le> length (str st')
         \<and> str st' = str st \<and> eof st' = eof st \<and> length (queue st) < length (queue st')"
    by (auto simp: step_post_def)
next
  assume a: "pos st = length (str st) \<and> lookahead st = []"
  then obtain st' t where "matchToken st = Inr st'" "eof st'" "pos st' = pos st"
    "queue st' = queue st @ [t]"
    using matchToken_at_end[of st] by blast
  then show "\<exists>st'. matchToken st = Inr st' \<and> eof st' \<and> pos st' = pos st
         \<and> length (queue st) < length (queue st')"
    by auto
next
  from Tokenizer_stream[of s] obtain q t where
    q: "stream (Tokenizer s) = q @ [t]" "name t = EOF" "\<forall>u \<in> set q. name u \<noteq> EOF"
      "length q \<le> length s" by blast
  from nexts_serve[OF Tokenizer_wf, of "Suc (length q)" s] obtain st' where
    n: "nexts (Suc (length q)) (Tokenizer s) = Inr (serve (Suc (length q)) (q @ [t]), st')"
    using q(1) by auto
  have "serve (length q + 1) (q @ [t]) = q @ serve 1 [t]" by (rule serve_prefix[OF q(3)])
  then have "serve (Suc (length q)) (q @ [t]) = q @ [t]" by simp
  with n q show "\<exists>n \<le> length s. \<exists>ts st'. nexts (Suc n) (Tokenizer s) = Inr (ts, st')
         \<and> name (last ts) = EOF \<and> (\<forall>t \<in> set (butlast ts). name t \<noteq> EOF)"
    by (intro exI[of _ "length q"]) auto
qed

theorem tokenization_terminates_witness:
  "pos (Tokenizer ''a b'') < length (str (Tokenizer ''a b'')) \<and> lookahead (Tokenizer ''a b'') = []
   \<and> (\<exists>st'. matchToken (Tokenizer ''a b'') = Inr st' \<and> pos (Tokenizer ''a b'') < pos st'
         \<and> length (queue (Tokenizer ''a b'')) < length (queue st'))
   \<and> pos (Tokenizer []) = length (str (Tokenizer [])) \<and> lookahead (Tokenizer []) = []
   \<and> (\<exists>st'. matchToken (Tokenizer []) = Inr st' \<and> eof st')
   \<and> (\<exists>n \<le> length ''a b''. \<exists>ts st'. nexts (Suc n) (Tokenizer ''a b'') = Inr (ts, st')
         \<and> name (last ts) = EOF \<and> (\<forall>t \<in> set (butlast ts). name t \<noteq> EOF))"
proof -
  have h1: "pos (Tokenizer ''a b'') < length (str (Tokenizer ''a b''))
      \<and> lookahead (Tokenizer ''a b'') = []"
    by (simp add: Tokenizer_def)
  have h2: "pos (Tokenizer []) = length (str (Tokenizer [])) \<and> lookahead (Tokenizer []) = []"
    by (simp add: Tokenizer_def)
  from tokenization_terminates[of "Tokenizer ''a b''" "''a b''"] h1
  have c1: "\<exists>st'. matchToken (Tokenizer ''a b'') = Inr st' \<and> pos (Tokenizer ''a b'') < pos st'
         \<and> length (queue (Tokenizer ''a b'')) < length (queue st')"
    by blast
  from tokenization_terminates[of "Tokenizer []" "''a b''"] h2
  have c2: "\<exists>st'. matchToken (Tokenizer []) = Inr st' \<and> eof st'"
    by blast
  from tokenization_terminates[of "Tokenizer ''a b''" "''a b''"]
  have c3: "\<exists>n \<le> length ''a b''. \<exists>ts st'. nexts (Suc n) (Tokenizer ''a b'') = Inr (ts, st')
         \<and> name (last ts) = EOF \<and> (\<forall>t \<in> set (butlast ts). name t \<noteq> EOF)"
    by blast
  from h1 h2 c1 c2 c3 show ?thesis by blast
qed

text \<open>
  C6. Peeking does not change what \<open>next\<close> returns.  Take any sequence of \<open>peek(k)\<close>
  calls with positive \<open>k\<close> and \<open>next\<close> calls on a fresh tokenizer.  No call fails; the
  \<open>next\<close> calls of the sequence return the tokens that the same number of \<open>next\<close> calls
  alone return; in the state reached, \<open>peek(1)\<close> returns the token that the following
  \<open>next\<close> returns, with or without the peek; for every positive \<open>k\<close>, \<open>peek(k)\<close> returns
  the token that the last of \<open>k\<close> following \<open>next\<close> calls returns, which is the
  end-of-input token as soon as one of these calls returns it, so at every distance past
  the last token; in particular a \<open>peek\<close> further ahead than the input is long returns
  the end-of-input token.
\<close>

theorem peek_does_not_change_next:
  assumes "\<forall>k. Peek k \<in> set cs \<longrightarrow> 0 < k"
  shows "\<exists>ts st. run cs (Tokenizer s) = Inr (ts, st)
     \<and> (\<exists>st'. nexts (count_next cs) (Tokenizer s) = Inr (ts, st'))
     \<and> (\<exists>t st1 st2 st3. peek 1 st = Inr (Some t, st1) \<and> next_token st1 = Inr (t, st2)
           \<and> next_token st = Inr (t, st3))
     \<and> (\<forall>k > 0. \<exists>t st1 us st2. peek k st = Inr (Some t, st1) \<and> nexts k st = Inr (us, st2)
           \<and> t = last us \<and> ((\<exists>u \<in> set us. name u = EOF) \<longrightarrow> name t = EOF))
     \<and> (\<forall>k > length s. \<exists>t st1. peek k st = Inr (Some t, st1) \<and> name t = EOF)"
proof -
  let ?xs = "stream (Tokenizer s)"
  from run_serve[OF Tokenizer_wf assms, of s] obtain st where
    r: "run cs (Tokenizer s) = Inr (serve (count_next cs) ?xs, st)" and w: "wf st"
    and st: "str st = s" and r2: "stream st = rest_after (count_next cs) ?xs"
    by (auto simp: Tokenizer_def)
  from nexts_serve[OF Tokenizer_wf, of "count_next cs" s] obtain st' where
    n: "nexts (count_next cs) (Tokenizer s) = Inr (serve (count_next cs) ?xs, st')" by blast
  from peek_wf[OF w, of 1] obtain st1 where
    p: "peek 1 st = Inr (Some (stream st ! 0), st1)" and w1: "wf st1"
    and s1: "stream st1 = stream st" by auto
  from stream_shape[OF w] obtain q t where sh: "stream st = q @ [t]" "name t = EOF"
    "\<forall>u \<in> set q. name u \<noteq> EOF" by blast
  then have h: "stream st ! 0 = hd (stream st)" by (simp add: hd_conv_nth)
  from next_token_wf[OF w1] s1 obtain st2 where n1: "next_token st1 = Inr (hd (stream st), st2)"
    by auto
  from next_token_wf[OF w] obtain st3 where n3: "next_token st = Inr (hd (stream st), st3)"
    by auto
  have ahead: "\<forall>k > 0. \<exists>t st1 us st2. peek k st = Inr (Some t, st1) \<and> nexts k st = Inr (us, st2)
           \<and> t = last us \<and> ((\<exists>u \<in> set us. name u = EOF) \<longrightarrow> name t = EOF)"
  proof (intro allI impI)
    fix k :: nat
    assume k: "0 < k"
    from peek_wf[OF w k] obtain st1 where
      pk: "peek k st = Inr (Some (stream st ! min (k - 1) (length (stream st) - 1)), st1)"
      by auto
    from nexts_serve[OF w, of k] obtain st2 where
      nk: "nexts k st = Inr (serve k (stream st), st2)" by blast
    from serve_last[OF sh(2,3) k] sh(1)
    have l: "last (serve k (stream st)) = stream st ! min (k - 1) (length (stream st) - 1)"
      "(\<exists>u \<in> set (serve k (stream st)). name u = EOF)
         \<longrightarrow> name (last (serve k (stream st))) = EOF"
      by simp_all
    show "\<exists>t st1 us st2. peek k st = Inr (Some t, st1) \<and> nexts k st = Inr (us, st2)
           \<and> t = last us \<and> ((\<exists>u \<in> set us. name u = EOF) \<longrightarrow> name t = EOF)"
      using pk nk l
      by (intro exI[of _ "last (serve k (stream st))"] exI[of _ st1]
          exI[of _ "serve k (stream st)"] exI[of _ st2]) simp
  qed
  have far: "\<forall>k > length s. \<exists>t st1. peek k st = Inr (Some t, st1) \<and> name t = EOF"
  proof (intro allI impI)
    fix k
    assume k: "length s < k"
    from Tokenizer_stream[of s] have "length ?xs \<le> length s + 1" by auto
    with rest_after_length[of "count_next cs" ?xs] r2
    have "length (stream st) \<le> length s + 1" by simp
    with k have "min (k - 1) (length (stream st) - 1) = length (stream st) - 1" by simp
    moreover from sh have "stream st ! (length (stream st) - 1) = t" by simp
    moreover from peek_wf[OF w, of k] k obtain st1 where
      "peek k st = Inr (Some (stream st ! min (k - 1) (length (stream st) - 1)), st1)" by auto
    ultimately show "\<exists>t st1. peek k st = Inr (Some t, st1) \<and> name t = EOF"
      using sh(2) by auto
  qed
  have c2: "\<exists>st'. nexts (count_next cs) (Tokenizer s) = Inr (serve (count_next cs) ?xs, st')"
    using n by blast
  have c3: "\<exists>t st1 st2 st3. peek 1 st = Inr (Some t, st1) \<and> next_token st1 = Inr (t, st2)
           \<and> next_token st = Inr (t, st3)"
    using p h n1 n3 by auto
  show ?thesis
    by (intro exI[of _ "serve (count_next cs) ?xs"] exI[of _ st] conjI r c2 c3 ahead far)
qed

theorem peek_does_not_change_next_witness:
  "(\<exists>ts st. run [Peek 2, Next, Peek 1, Peek 9, Next] (Tokenizer ''a *b'') = Inr (ts, st)
        \<and> (\<exists>st'. nexts (count_next [Peek 2, Next, Peek 1, Peek 9, Next]) (Tokenizer ''a *b'')
               = Inr (ts, st'))
        \<and> (\<exists>t st1. peek 5 st = Inr (Some t, st1) \<and> name t = EOF))
   \<and> (\<exists>t st1. peek 3 (Tokenizer ''abc'') = Inr (Some t, st1) \<and> name t = EOF)
   \<and> (\<exists>t st1. peek 2 (Tokenizer ''abc'') = Inr (Some t, st1) \<and> name t = EOF)"
proof -
  have h: "\<forall>k. Peek k \<in> set [Peek 2, Next, Peek 1, Peek 9, Next] \<longrightarrow> 0 < k" by auto
  have l: "length ''a *b'' < (5::nat)" by simp
  from peek_does_not_change_next[OF h, of "''a *b''"] obtain ts st where
    r: "run [Peek 2, Next, Peek 1, Peek 9, Next] (Tokenizer ''a *b'') = Inr (ts, st)"
    and n: "\<exists>st'. nexts (count_next [Peek 2, Next, Peek 1, Peek 9, Next]) (Tokenizer ''a *b'')
               = Inr (ts, st')"
    and f: "\<forall>k > length ''a *b''. \<exists>t st1. peek k st = Inr (Some t, st1) \<and> name t = EOF"
    by blast
  from f l have "\<exists>t st1. peek 5 st = Inr (Some t, st1) \<and> name t = EOF" by blast
  with r n have 1: "\<exists>ts st. run [Peek 2, Next, Peek 1, Peek 9, Next] (Tokenizer ''a *b'') = Inr (ts, st)
        \<and> (\<exists>st'. nexts (count_next [Peek 2, Next, Peek 1, Peek 9, Next]) (Tokenizer ''a *b'')
               = Inr (ts, st'))
        \<and> (\<exists>t st1. peek 5 st = Inr (Some t, st1) \<and> name t = EOF)" by blast
  have e: "\<forall>k. Peek k \<in> set [] \<longrightarrow> 0 < k" by simp
  from peek_does_not_change_next[OF e, of "''abc''"]
  have a: "\<forall>k > 0. \<exists>t st1 us st2. peek k (Tokenizer ''abc'') = Inr (Some t, st1)
           \<and> nexts k (Tokenizer ''abc'') = Inr (us, st2)
           \<and> t = last us \<and> ((\<exists>u \<in> set us. name u = EOF) \<longrightarrow> name t = EOF)"
    by simp
  have ev: "map_sum id (map name \<circ> fst) (nexts 3 (Tokenizer ''abc'')) = Inr [Text, EOF, EOF]"
    "map_sum id (map name \<circ> fst) (nexts 2 (Tokenizer ''abc'')) = Inr [Text, EOF]"
    by code_simp+
  from a[rule_format, of 3] ev(1)
  have 2: "\<exists>t st1. peek 3 (Tokenizer ''abc'') = Inr (Some t, st1) \<and> name t = EOF"
    by (auto simp: last_map[symmetric] simp del: last_map)
  from a[rule_format, of 2] ev(2)
  have 3: "\<exists>t st1. peek 2 (Tokenizer ''abc'') = Inr (Some t, st1) \<and> name t = EOF"
    by (auto simp: last_map[symmetric] simp del: last_map)
  from 1 2 3 show ?thesis by blast
qed

text \<open>
  C3. Escapes in plain text.  The claim lists five delimiter characters and the
  backslash as the characters that lose their backslash.  The test in \<open>scanEscape\<close> is
  \<open>isFormat(chr) || chr === '\\'\<close>, and \<open>isFormat\<close> also holds of \<open><\<close>: a backslash before
  \<open><\<close> is dropped as well, which is how a tag or a comment is escaped.
\<close>

theorem escape_lt_counterexample:
  "CHR ''<'' \<notin> {CHR ''*'', CHR ''_'', CHR ''`'', CHR ''|'', CHR ''~'', backslash}
   \<and> fst (scanChars (Tokenizer [backslash, CHR ''<'', CHR ''b''])) = ''<b''
   \<and> fst (scanChars (Tokenizer [backslash, CHR ''<'', CHR ''b''])) \<noteq> [backslash, CHR ''<'', CHR ''b'']"
  by code_simp

text \<open>
  C3, amended.  During plain-text scanning a backslash consumes the character after it.
  If that character is one of the six format characters \<open>*\<close>, \<open>_\<close>, \<open>`\<close>, \<open><\<close>, \<open>|\<close>, \<open>~\<close> or a
  backslash, only that character is added to the text; any other character is added
  after the backslash; a backslash at the end of the input is added as itself and ends
  the scan.
\<close>

theorem escape_handling:
  assumes "pos st < length (str st)" and "str st ! pos st = backslash"
  shows "scanChars_loop st out =
     (if pos st + 1 = length (str st) then (out @ [backslash], st\<lparr>pos := pos st + 1\<rparr>)
      else scanChars_loop (st\<lparr>pos := pos st + 2\<rparr>)
             (out @ (if str st ! (pos st + 1) \<in> {CHR ''*'', CHR ''_'', CHR ''`'', CHR ''<'',
                          CHR ''|'', CHR ''~'', backslash}
                     then [str st ! (pos st + 1)]
                     else [backslash, str st ! (pos st + 1)])))"
proof -
  from assms have c: "charAt (str st) (pos st) = Some backslash" by (simp add: charAt_def)
  show ?thesis
  proof (cases "pos st + 1 = length (str st)")
    case True
    then have e: "scanEscape st = ([backslash], st\<lparr>pos := pos st + 1\<rparr>)"
      by (simp add: scanEscape_def Let_def)
    have "scanChars_loop (st\<lparr>pos := pos st + 1\<rparr>) (out @ [backslash])
        = (out @ [backslash], st\<lparr>pos := pos st + 1\<rparr>)"
      using True by (subst scanChars_loop.simps) simp
    with assms(1) c e True show ?thesis by (subst scanChars_loop.simps) (simp add: Let_def)
  next
    case False
    with assms(1) have l: "pos st + 1 < length (str st)" by simp
    note e = scanEscape_eq[OF l]
    with assms(1) c False show ?thesis by (subst scanChars_loop.simps) (simp add: Let_def)
  qed
qed

theorem escape_handling_witness:
  "0 < length [backslash, CHR ''<''] \<and> [backslash, CHR ''<''] ! 0 = backslash
   \<and> scanChars_loop (Tokenizer [backslash, CHR ''<'']) []
       = scanChars_loop ((Tokenizer [backslash, CHR ''<''])\<lparr>pos := 2\<rparr>) ''<''"
  using escape_handling[of "Tokenizer [backslash, CHR ''<'']" "[]"]
  by (simp add: Tokenizer_def numeral_2_eq_2)



text \<open>
  Claim C4. At a line start, held whitespace, a run of digits, a dot and a space make one
  ordered-list-marker token. When the dot or the space is missing, the whitespace (if any) is a
  whitespace token and the digits begin a text token, and no marker is produced. A call that
  does not start at a line start never produces a marker. The line-start flag is set at the
  start of input, and after a call exactly when the last token of the call is a linebreak or
  a parabreak. The three examples of the specification are tokenized as it says.
\<close>

theorem list_marker_detection:
  assumes la0: "lookahead st = []"
  shows "(newline st \<and> drop (pos st) (str st) = ws @ ds @ rest
          \<and> (\<forall>c \<in> set ws. isWhitespace (Some c)) \<and> ds \<noteq> [] \<and> (\<forall>c \<in> set ds. is_digit c)
          \<and> (rest = [] \<or> \<not> is_digit (hd rest)) \<longrightarrow>
          (\<exists>st'. matchToken st = Inr st' \<and> queue st' = queue st @ emitted st st' \<and>
             (if take 2 rest = ''. ''
              then map (\<lambda>t. (name t, contents t)) (emitted st st') = [(Ol, Some (ws @ ds @ ''. ''))]
                 \<and> pos st' = pos st + length ws + length ds + 2
              else \<exists>txt la. map (\<lambda>t. (name t, contents t)) (emitted st st')
                     = (if ws = [] then [] else [(Whitespace, Some ws)]) @ (Text, Some (ds @ txt)) # la
                   \<and> (\<forall>t \<in> set la. fst t \<in> {Tag, OpaqueTag, Comment}))))
     \<and> (\<not> newline st \<and> matchToken st = Inr st'' \<longrightarrow>
           (\<forall>t \<in> set (emitted st st''). name t \<noteq> Ol))
     \<and> newline (Tokenizer s)
     \<and> (pos st < length (str st) \<and> matchToken st = Inr st'' \<longrightarrow>
           (newline st'' \<longleftrightarrow> name (last (emitted st st'')) \<in> {Linebreak, Parabreak}))
     \<and> map_sum id (map (\<lambda>t. (name t, contents t)) \<circ> fst) (nexts 3 (Tokenizer ''1. foo''))
         = Inr [(Ol, Some ''1. ''), (Text, Some ''foo''), (EOF, None)]
     \<and> map_sum id (map (\<lambda>t. (name t, contents t)) \<circ> fst) (nexts 4 (Tokenizer ''1 foo''))
         = Inr [(Text, Some ''1''), (Whitespace, Some '' ''), (Text, Some ''foo''), (EOF, None)]
     \<and> map_sum id (map (\<lambda>t. (name t, contents t)) \<circ> fst) (nexts 2 (Tokenizer ''1.foo''))
         = Inr [(Text, Some ''1.foo''), (EOF, None)]"
proof (intro conjI impI)
  assume h: "newline st \<and> drop (pos st) (str st) = ws @ ds @ rest
          \<and> (\<forall>c \<in> set ws. isWhitespace (Some c)) \<and> ds \<noteq> [] \<and> (\<forall>c \<in> set ds. is_digit c)
          \<and> (rest = [] \<or> \<not> is_digit (hd rest))"
  then have d: "drop (pos st) (str st) = ws @ ds @ rest" and ds: "ds \<noteq> []" and nl: "newline st"
    by simp_all
  from d ds have lt: "pos st \<noteq> length (str st)" by auto
  define sp where "sp = getLocation (st\<lparr>newline := False\<rparr>)"
  define st2 where "st2 = st\<lparr>newline := False, pos := pos st + length ws + length ds\<rparr>"
  define st3 where "st3 = (if length ws > 0 then enqueue st2 (tok Whitespace ws) sp else st2)"
  have ls: "lineStart st =
     (if take 2 rest = ''. '' then
        Returned (enqueue (st2\<lparr>pos := pos st2 + 2\<rparr>) (tok Ol (ws @ ds @ ''. '')) sp)
      else Returned (enqueue (snd (scanChars st3)) (tok Text (ds @ fst (scanChars st3))) sp))"
    using lineStart_digits[of st ws ds rest] h
    by (simp add: Let_def sp_def st2_def st3_def)
  have f2: "queue st2 = queue st" "lookahead st2 = []" using la0 by (simp_all add: st2_def)
  show "\<exists>st'. matchToken st = Inr st' \<and> queue st' = queue st @ emitted st st' \<and>
             (if take 2 rest = ''. ''
              then map (\<lambda>t. (name t, contents t)) (emitted st st') = [(Ol, Some (ws @ ds @ ''. ''))]
                 \<and> pos st' = pos st + length ws + length ds + 2
              else \<exists>txt la. map (\<lambda>t. (name t, contents t)) (emitted st st')
                     = (if ws = [] then [] else [(Whitespace, Some ws)]) @ (Text, Some (ds @ txt)) # la
                   \<and> (\<forall>t \<in> set la. fst t \<in> {Tag, OpaqueTag, Comment}))"
  proof (cases "take 2 rest = ''. ''")
    case True
    with ls lt nl f2 show ?thesis
      by (simp add: matchToken_def emitted_def st2_def)
  next
    case False
    have l3: "lookahead st3 = []" using f2 by (simp add: st3_def)
    have q3: "map (\<lambda>t. (name t, contents t)) (drop (length (queue st)) (queue st3))
        = (if ws = [] then [] else [(Whitespace, Some ws)])"
      "length (queue st) \<le> length (queue st3)"
      "take (length (queue st)) (queue st3) = queue st"
      using f2 by (simp_all add: st3_def)
    let ?st' = "enqueue (snd (scanChars st3)) (tok Text (ds @ fst (scanChars st3))) sp"
    have m: "matchToken st = Inr ?st'" using ls lt nl False by (simp add: matchToken_def)
    have q: "queue ?st' = queue st3 @ fst (locate (snd (scanChars st3))
        (tok Text (ds @ fst (scanChars st3))) sp) # lookahead (snd (scanChars st3))"
      by simp
    have e: "map (\<lambda>t. (name t, contents t)) (emitted st ?st')
        = (if ws = [] then [] else [(Whitespace, Some ws)])
           @ (Text, Some (ds @ fst (scanChars st3)))
           # map (\<lambda>t. (name t, contents t)) (lookahead (snd (scanChars st3)))"
      unfolding emitted_def q using q3 by simp
    have qq: "queue ?st' = queue st @ emitted st ?st'"
      unfolding emitted_def q using q3(2,3)
      by (metis append.assoc append_take_drop_id drop_append diff_is_0_eq drop_0)
    from scanChars_lookahead_names[OF l3]
    have n: "\<forall>t \<in> set (map (\<lambda>t. (name t, contents t)) (lookahead (snd (scanChars st3)))).
        fst t \<in> {Tag, OpaqueTag, Comment}" by auto
    show ?thesis
      using False m qq e n by (simp only: if_False) blast
  qed
next
  assume "\<not> newline st \<and> matchToken st = Inr st''"
  with matchToken_no_marker[OF la0, of st''] show "\<forall>t \<in> set (emitted st st''). name t \<noteq> Ol"
    by simp
next
  show "newline (Tokenizer s)" by (simp add: Tokenizer_def)
next
  assume "pos st < length (str st) \<and> matchToken st = Inr st''"
  with matchToken_flag[OF la0, of st'']
  show "newline st'' \<longleftrightarrow> name (last (emitted st st'')) \<in> {Linebreak, Parabreak}" by simp
next
  show "map_sum id (map (\<lambda>t. (name t, contents t)) \<circ> fst) (nexts 3 (Tokenizer ''1. foo''))
         = Inr [(Ol, Some ''1. ''), (Text, Some ''foo''), (EOF, None)]"
    by code_simp
next
  show "map_sum id (map (\<lambda>t. (name t, contents t)) \<circ> fst) (nexts 4 (Tokenizer ''1 foo''))
         = Inr [(Text, Some ''1''), (Whitespace, Some '' ''), (Text, Some ''foo''), (EOF, None)]"
    by code_simp
next
  show "map_sum id (map (\<lambda>t. (name t, contents t)) \<circ> fst) (nexts 2 (Tokenizer ''1.foo''))
         = Inr [(Text, Some ''1.foo''), (EOF, None)]"
    by code_simp
qed

theorem list_marker_detection_witness:
  "(\<exists>st'. matchToken (Tokenizer ''  12. x'') = Inr st'
       \<and> map (\<lambda>t. (name t, contents t)) (queue st') = [(Ol, Some ''  12. '')] \<and> pos st' = length ''  12. '')
   \<and> (\<exists>st' txt la. matchToken (Tokenizer '' 12.x'') = Inr st'
       \<and> map (\<lambda>t. (name t, contents t)) (queue st')
          = (Whitespace, Some '' '') # (Text, Some (''12'' @ txt)) # la)"
proof -
  have w: "\<forall>c \<in> set ''  ''. isWhitespace (Some c)" "\<forall>c \<in> set '' ''. isWhitespace (Some c)"
    by (simp_all add: isWhitespace_def)
  have d: "\<forall>c \<in> set ''12''. is_digit c" "\<not> is_digit (hd ''. x'')" "\<not> is_digit (hd ''.x'')"
    by (simp_all add: is_digit_def)
  have e: "queue T = [] \<Longrightarrow> emitted T st' = queue st'" for T st'
    by (simp add: emitted_def)
  have "\<exists>st'. matchToken (Tokenizer ''  12. x'') = Inr st'
       \<and> map (\<lambda>t. (name t, contents t)) (queue st') = [(Ol, Some ''  12. '')] \<and> pos st' = length ''  12. ''"
    using list_marker_detection[of "Tokenizer ''  12. x''" "''  ''" "''12''" "''. x''", THEN conjunct1] w d
    by (auto simp: e Tokenizer_def)
  moreover have "\<exists>st' txt la. matchToken (Tokenizer '' 12.x'') = Inr st'
       \<and> map (\<lambda>t. (name t, contents t)) (queue st')
          = (Whitespace, Some '' '') # (Text, Some (''12'' @ txt)) # la"
    using list_marker_detection[of "Tokenizer '' 12.x''" "'' ''" "''12''" "''.x''", THEN conjunct1] w d
    by (auto simp: e Tokenizer_def)
  ultimately show ?thesis by blast
qed

text \<open>
  Claim C1. Coverage fails on an input without backslash: at a line start, whitespace that is
  held before a \<open><\<close> which opens neither a tag nor a comment is not emitted at all. The
  tokens of \<open>'' < 1''\<close> are the text \<open>''<''\<close>, whitespace and the text \<open>''1''\<close>, whose
  contents concatenate to \<open>''< 1''\<close>: the leading space of the input is lost. The sibling
  branches of the line start emit the held whitespace: before a tag and before plain text
  it becomes a whitespace token.
\<close>

theorem held_whitespace_dropped:
  "map_sum id (map (\<lambda>t. (name t, contents t)) \<circ> fst) (nexts 4 (Tokenizer '' < 1''))
     = Inr [(Text, Some ''<''), (Whitespace, Some '' ''), (Text, Some ''1''), (EOF, None)]
   \<and> map_sum id (concat \<circ> map (\<lambda>t. case contents t of Some c \<Rightarrow> c | None \<Rightarrow> []) \<circ> fst)
        (nexts 4 (Tokenizer '' < 1'')) = Inr ''< 1''
   \<and> map_sum id (map (\<lambda>t. (name t, contents t)) \<circ> fst) (nexts 2 (Tokenizer '' <''))
     = Inr [(Text, Some ''<''), (EOF, None)]
   \<and> map_sum id (map (\<lambda>t. (name t, contents t)) \<circ> fst) (nexts 3 (Tokenizer '' <b>''))
     = Inr [(Whitespace, Some '' ''), (Tag, Some ''<b>''), (EOF, None)]
   \<and> map_sum id (map (\<lambda>t. (name t, contents t)) \<circ> fst) (nexts 3 (Tokenizer '' a''))
     = Inr [(Whitespace, Some '' ''), (Text, Some ''a''), (EOF, None)]"
  by (intro conjI; code_simp)

text \<open>
  Claim C2, as stated, fails. The input backslash-star is one text token whose contents are
  the single character \<open>*\<close>, while its location spans both characters of the input:
  the span of a token is not the length of its contents.
\<close>

theorem span_differs_from_contents_counterexample:
  "map_sum id (map (\<lambda>t. (name t, contents t, start_off t, end_off t)) \<circ> fst)
     (nexts 2 (Tokenizer [backslash, CHR ''*'']))
     = Inr [(Text, Some ''*'', 0, 2), (EOF, None, 2, 2)]
   \<and> 2 - 0 \<noteq> length ''*''"
  by (intro conjI; code_simp)

text \<open>
  Claim C2, amended. For every input and every number of calls of \<open>next\<close>, the calls return,
  and every token returned has a location with start offset at most its end offset, which is
  at most the length of the input; the span is at least the length of the contents; and along
  the tokens in scan order neither the start offsets nor the end offsets ever decrease.
  When every call of \<open>matchToken\<close> in the run enqueues one token and none loses held
  whitespace, the tokens lie one after the other: the first starts at offset 0 and each
  token starts at the end offset of the token before it; and a token whose part of the input
  holds no backslash has that part as its contents, so that its span is the length of its
  contents. The same holds call by call: a call that enqueues a single token and loses no
  whitespace locates it from the position before the call to the position after it, and
  the contents are the input between the two unless it holds a backslash.
\<close>

theorem token_locations:
  "(\<exists>ts st'. nexts n (Tokenizer s) = Inr (ts, st')
     \<and> (\<forall>t \<in> set ts. offset (start (location t)) \<le> offset (endp (location t))
           \<and> offset (endp (location t)) \<le> length s
           \<and> (\<forall>c. contents t = Some c \<longrightarrow>
                 length c \<le> offset (endp (location t)) - offset (start (location t))))
     \<and> sorted (map (\<lambda>t. offset (start (location t))) ts)
     \<and> sorted (map (\<lambda>t. offset (endp (location t))) ts)
     \<and> (one_token_steps (Tokenizer s) \<longrightarrow>
           tiles 0 ts
           \<and> (\<forall>t \<in> set ts. \<forall>c. contents t = Some c \<longrightarrow>
                 backslash \<notin> set (slice s (start_off t) (end_off t)) \<longrightarrow>
                 c = slice s (start_off t) (end_off t)
                 \<and> length c = end_off t - start_off t)))
   \<and> (lookahead st = [] \<and> pos st < length (str st) \<and> \<not> dropsWhitespace st \<longrightarrow>
        (\<exists>st'. matchToken st = Inr st' \<and> pos st < pos st' \<and> pos st' \<le> length (str st)
           \<and> (\<forall>t. queue st' = queue st @ [t] \<longrightarrow>
                 start_off t = pos st \<and> end_off t = pos st'
                 \<and> (backslash \<notin> set (slice (str st) (pos st) (pos st')) \<longrightarrow>
                       contents t = Some (slice (str st) (pos st) (pos st'))
                       \<and> length (slice (str st) (pos st) (pos st')) = pos st' - pos st))))"
proof (intro conjI impI)
  have w: "wf (Tokenizer s)" by (rule Tokenizer_wf)
  have "located (pos (Tokenizer s)) (queue (Tokenizer s))"
    by (simp add: Tokenizer_def located_def)
  from stream_located[OF w this] have l: "located (length s) (stream (Tokenizer s))"
    by (simp add: Tokenizer_def)
  from stream_shape[OF w] obtain q t where
    q: "stream (Tokenizer s) = q @ [t]" "name t = EOF" "\<forall>u \<in> set q. name u \<noteq> EOF"
    by blast
  let ?ts = "serve n (stream (Tokenizer s))"
  from located_serve[OF l[unfolded q(1)] q(2,3), of n]
  have ls: "located (length s) ?ts" by (simp add: q(1))
  from nexts_serve[OF w, of n] obtain st' where
    n: "nexts n (Tokenizer s) = Inr (?ts, st')" by blast
  have so: "start_off = (\<lambda>t. offset (start (location t)))" "end_off = (\<lambda>t. offset (endp (location t)))"
    by (simp_all add: fun_eq_iff start_off_def end_off_def)
  from ls have a: "\<forall>t \<in> set ?ts.
           offset (start (location t)) \<le> offset (endp (location t))
           \<and> offset (endp (location t)) \<le> length s
           \<and> (\<forall>c. contents t = Some c \<longrightarrow>
                 length c \<le> offset (endp (location t)) - offset (start (location t)))"
    and b: "sorted (map (\<lambda>t. offset (start (location t))) ?ts)"
    and c: "sorted (map (\<lambda>t. offset (endp (location t))) ?ts)"
    unfolding located_def so by (simp_all add: le_diff_conv2)
  have d: "one_token_steps (Tokenizer s) \<longrightarrow>
           tiles 0 ?ts
           \<and> (\<forall>t \<in> set ?ts. \<forall>c. contents t = Some c \<longrightarrow>
                 backslash \<notin> set (slice s (start_off t) (end_off t)) \<longrightarrow>
                 c = slice s (start_off t) (end_off t)
                 \<and> length c = end_off t - start_off t)"
  proof
    assume o: "one_token_steps (Tokenizer s)"
    have i: "tiles 0 (queue (Tokenizer s))" "chain_end 0 (queue (Tokenizer s)) = pos (Tokenizer s)"
      "verbatim (str (Tokenizer s)) (queue (Tokenizer s))"
      "\<forall>t \<in> set (queue (Tokenizer s)). name t = EOF \<longrightarrow> start_off t = end_off t"
      by (simp_all add: Tokenizer_def verbatim_def)
    from stream_tiles[OF w o i] have r: "tiles 0 (stream (Tokenizer s))"
      "verbatim s (stream (Tokenizer s))"
      "\<forall>t \<in> set (stream (Tokenizer s)). name t = EOF \<longrightarrow> start_off t = end_off t"
      by (simp_all add: Tokenizer_def)
    from r(3) q(1,2) have e: "start_off t = end_off t" by simp
    from tiles_serve[OF r(1)[unfolded q(1)] q(2,3) e, of n]
    have t1: "tiles 0 ?ts" by (simp add: q(1))
    from verbatim_serve[OF r(2)[unfolded q(1)] q(2,3), of n]
    have v: "verbatim s ?ts" by (simp add: q(1))
    have t2: "\<forall>t \<in> set ?ts. \<forall>c. contents t = Some c \<longrightarrow>
                 backslash \<notin> set (slice s (start_off t) (end_off t)) \<longrightarrow>
                 c = slice s (start_off t) (end_off t)
                 \<and> length c = end_off t - start_off t"
    proof (intro ballI allI impI)
      fix u c
      assume u: "u \<in> set ?ts" and cu: "contents u = Some c"
        and nb: "backslash \<notin> set (slice s (start_off u) (end_off u))"
      from v u cu nb have 1: "c = slice s (start_off u) (end_off u)"
        unfolding verbatim_def by blast
      from ls u have "end_off u \<le> length s" unfolding located_def by blast
      then have "length (slice s (start_off u) (end_off u)) = end_off u - start_off u"
        by (simp add: slice_def)
      with 1 show "c = slice s (start_off u) (end_off u) \<and> length c = end_off u - start_off u"
        by simp
    qed
    from t1 t2 show "tiles 0 ?ts
           \<and> (\<forall>t \<in> set ?ts. \<forall>c. contents t = Some c \<longrightarrow>
                 backslash \<notin> set (slice s (start_off t) (end_off t)) \<longrightarrow>
                 c = slice s (start_off t) (end_off t)
                 \<and> length c = end_off t - start_off t)" by (rule conjI)
  qed
  show "\<exists>ts st'. nexts n (Tokenizer s) = Inr (ts, st')
     \<and> (\<forall>t \<in> set ts. offset (start (location t)) \<le> offset (endp (location t))
           \<and> offset (endp (location t)) \<le> length s
           \<and> (\<forall>c. contents t = Some c \<longrightarrow>
                 length c \<le> offset (endp (location t)) - offset (start (location t))))
     \<and> sorted (map (\<lambda>t. offset (start (location t))) ts)
     \<and> sorted (map (\<lambda>t. offset (endp (location t))) ts)
     \<and> (one_token_steps (Tokenizer s) \<longrightarrow>
           tiles 0 ts
           \<and> (\<forall>t \<in> set ts. \<forall>c. contents t = Some c \<longrightarrow>
                 backslash \<notin> set (slice s (start_off t) (end_off t)) \<longrightarrow>
                 c = slice s (start_off t) (end_off t)
                 \<and> length c = end_off t - start_off t))"
    by (rule exI[of _ ?ts], rule exI[of _ st'], intro conjI n a b c d)
next
  assume h: "lookahead st = [] \<and> pos st < length (str st) \<and> \<not> dropsWhitespace st"
  then have la: "lookahead st = []" and lt: "pos st < length (str st)"
    and nd: "\<not> dropsWhitespace st" by simp_all
  from matchToken_exact[OF lt la nd] obtain st' where
    m: "matchToken st = Inr st'" and e: "exact st st'" by blast
  from matchToken_step[OF lt la] m have "step_post st st'" by simp
  then have p: "pos st < pos st'" "pos st' \<le> length (str st)" by (simp_all add: step_post_def)
  then have len: "length (slice (str st) (pos st) (pos st')) = pos st' - pos st"
    by (simp add: slice_def)
  have x: "\<forall>t. queue st' = queue st @ [t] \<longrightarrow>
                 start_off t = pos st \<and> end_off t = pos st'
                 \<and> (backslash \<notin> set (slice (str st) (pos st) (pos st')) \<longrightarrow>
                       contents t = Some (slice (str st) (pos st) (pos st'))
                       \<and> length (slice (str st) (pos st) (pos st')) = pos st' - pos st)"
    using e len unfolding exact_def by blast
  show "\<exists>st'. matchToken st = Inr st' \<and> pos st < pos st' \<and> pos st' \<le> length (str st)
           \<and> (\<forall>t. queue st' = queue st @ [t] \<longrightarrow>
                 start_off t = pos st \<and> end_off t = pos st'
                 \<and> (backslash \<notin> set (slice (str st) (pos st) (pos st')) \<longrightarrow>
                       contents t = Some (slice (str st) (pos st) (pos st'))
                       \<and> length (slice (str st) (pos st) (pos st')) = pos st' - pos st))"
    by (rule exI[of _ st'], intro conjI m p x)
qed

theorem token_locations_witness:
  "(\<exists>ts st'. nexts 6 (Tokenizer ''1. a *b'') = Inr (ts, st')
     \<and> map (\<lambda>t. (name t, contents t, start_off t, end_off t)) ts
        = [(Ol, Some ''1. '', 0, 3), (Text, Some ''a'', 3, 4), (Whitespace, Some '' '', 4, 5),
           (Star_tok, Some ''*'', 5, 6), (Text, Some ''b'', 6, 7), (EOF, None, 7, 7)]
     \<and> tiles 0 ts)
   \<and> (\<exists>ts st'. nexts 4 (Tokenizer '' 1a<b>'') = Inr (ts, st')
     \<and> map (\<lambda>t. (name t, contents t, offset (start (location t)), offset (endp (location t)))) ts
        = [(Whitespace, Some '' '', 0, 2), (Text, Some ''1a'', 0, 6), (Tag, Some ''<b>'', 3, 6),
           (EOF, None, 6, 6)]
     \<and> sorted (map (\<lambda>t. offset (start (location t))) ts)
     \<and> sorted (map (\<lambda>t. offset (endp (location t))) ts))"
proof -
  have o: "one_token_steps (Tokenizer ''1. a *b'')" by code_simp
  from token_locations[of 6 "''1. a *b''", THEN conjunct1] o obtain us st1 where
    n1: "nexts 6 (Tokenizer ''1. a *b'') = Inr (us, st1)" and t1: "tiles 0 us"
    by blast
  have "map_sum id (map (\<lambda>t. (name t, contents t, start_off t, end_off t)) \<circ> fst)
      (nexts 6 (Tokenizer ''1. a *b''))
     = Inr [(Ol, Some ''1. '', 0, 3), (Text, Some ''a'', 3, 4), (Whitespace, Some '' '', 4, 5),
           (Star_tok, Some ''*'', 5, 6), (Text, Some ''b'', 6, 7), (EOF, None, 7, 7)]"
    by code_simp
  with n1 have m1: "map (\<lambda>t. (name t, contents t, start_off t, end_off t)) us
        = [(Ol, Some ''1. '', 0, 3), (Text, Some ''a'', 3, 4), (Whitespace, Some '' '', 4, 5),
           (Star_tok, Some ''*'', 5, 6), (Text, Some ''b'', 6, 7), (EOF, None, 7, 7)]" by simp
  have 1: "\<exists>ts st'. nexts 6 (Tokenizer ''1. a *b'') = Inr (ts, st')
     \<and> map (\<lambda>t. (name t, contents t, start_off t, end_off t)) ts
        = [(Ol, Some ''1. '', 0, 3), (Text, Some ''a'', 3, 4), (Whitespace, Some '' '', 4, 5),
           (Star_tok, Some ''*'', 5, 6), (Text, Some ''b'', 6, 7), (EOF, None, 7, 7)]
     \<and> tiles 0 ts"
    by (intro exI[of _ us] exI[of _ st1] conjI n1 m1 t1)
  from token_locations[of 4 "'' 1a<b>''", THEN conjunct1] obtain ts st' where
    n: "nexts 4 (Tokenizer '' 1a<b>'') = Inr (ts, st')"
    and s: "sorted (map (\<lambda>t. offset (start (location t))) ts)"
      "sorted (map (\<lambda>t. offset (endp (location t))) ts)"
    by blast
  have "map_sum id (map (\<lambda>t. (name t, contents t, offset (start (location t)),
          offset (endp (location t)))) \<circ> fst) (nexts 4 (Tokenizer '' 1a<b>''))
     = Inr [(Whitespace, Some '' '', 0, 2), (Text, Some ''1a'', 0, 6), (Tag, Some ''<b>'', 3, 6),
           (EOF, None, 6, 6)]"
    by code_simp
  with n have m: "map (\<lambda>t. (name t, contents t, offset (start (location t)),
         offset (endp (location t)))) ts
        = [(Whitespace, Some '' '', 0, 2), (Text, Some ''1a'', 0, 6), (Tag, Some ''<b>'', 3, 6),
           (EOF, None, 6, 6)]" by simp
  have 2: "\<exists>ts st'. nexts 4 (Tokenizer '' 1a<b>'') = Inr (ts, st')
     \<and> map (\<lambda>t. (name t, contents t, offset (start (location t)), offset (endp (location t)))) ts
        = [(Whitespace, Some '' '', 0, 2), (Text, Some ''1a'', 0, 6), (Tag, Some ''<b>'', 3, 6),
           (EOF, None, 6, 6)]
     \<and> sorted (map (\<lambda>t. offset (start (location t))) ts)
     \<and> sorted (map (\<lambda>t. offset (endp (location t))) ts)"
    by (intro exI[of _ ts] exI[of _ st'] conjI n m s)
  from 1 2 show ?thesis by (rule conjI)
qed




text \<open>
  Claim C7. When the text at the position is \<open>[id="\<close>, a non-empty run of word characters and
  hyphens, \<open>"]\<close> and a space, \<open>tryScanId\<close> consumes exactly that text: the offset and the
  column advance by its length, the line and everything else stay, and the token returned
  is an id token whose value is the identifier, located from the old position to the new
  one. When the text has no such form, it returns no token and the tokenizer is unchanged.
\<close>

theorem tryScanId_atomic:
  "(isIdent ident \<and> drop (pos st) (str st) = idText ident @ rest \<longrightarrow>
      (\<exists>t. tryScanId st = (Some t, st\<lparr>pos := pos st + (length ident + 8),
                                       tcolumn := tcolumn st + (int (length ident) + 8)\<rparr>)
         \<and> name t = Id \<and> tvalue t = Some ident \<and> contents t = None
         \<and> start (location t) = getLocation st
         \<and> endp (location t) = \<lparr>offset = pos st + (length ident + 8), line = tline st,
                                column = tcolumn st + (int (length ident) + 8)\<rparr>))
   \<and> ((\<forall>ident rest. isIdent ident \<longrightarrow> drop (pos st) (str st) \<noteq> idText ident @ rest) \<longrightarrow>
        tryScanId st = (None, st))"
proof (intro conjI impI)
  assume h: "isIdent ident \<and> drop (pos st) (str st) = idText ident @ rest"
  from exec_id_match[of ident rest] h obtain c where
    c: "exec idRegexp (drop (pos st) (str st)) = Some (idText ident, c)" "c 1 = Some ident"
    by auto
  have l: "length (idText ident) = length ident + 8" by (simp add: idText_def)
  show "\<exists>t. tryScanId st = (Some t, st\<lparr>pos := pos st + (length ident + 8),
                                       tcolumn := tcolumn st + (int (length ident) + 8)\<rparr>)
         \<and> name t = Id \<and> tvalue t = Some ident \<and> contents t = None
         \<and> start (location t) = getLocation st
         \<and> endp (location t) = \<lparr>offset = pos st + (length ident + 8), line = tline st,
                                column = tcolumn st + (int (length ident) + 8)\<rparr>"
    using c(2) by (simp add: tryScanId_def c(1) l Let_def locate_def getLocation_def)
next
  assume "\<forall>ident rest. isIdent ident \<longrightarrow> drop (pos st) (str st) \<noteq> idText ident @ rest"
  from exec_id_no_match[OF this] show "tryScanId st = (None, st)"
    by (simp add: tryScanId_def)
qed

theorem tryScanId_atomic_witness:
  "(\<exists>t. tryScanId (Tokenizer (idText ''a-b'' @ ''x''))
        = (Some t, (Tokenizer (idText ''a-b'' @ ''x''))\<lparr>pos := 11, tcolumn := 12\<rparr>)
      \<and> name t = Id \<and> tvalue t = Some ''a-b'')
   \<and> tryScanId (Tokenizer ''[id=a-b] x'') = (None, Tokenizer ''[id=a-b] x'')"
proof -
  let ?T = "Tokenizer (idText ''a-b'' @ ''x'')"
  have i: "isIdent ''a-b'' \<and> drop (pos ?T) (str ?T) = idText ''a-b'' @ ''x''"
    by (simp add: isIdent_def is_word_def Tokenizer_def)
  from tryScanId_atomic[of "''a-b''" ?T "''x''", THEN conjunct1, THEN mp, OF i]
  have 1: "\<exists>t. tryScanId ?T = (Some t, ?T\<lparr>pos := 11, tcolumn := 12\<rparr>)
      \<and> name t = Id \<and> tvalue t = Some ''a-b''"
    by (auto simp: Tokenizer_def)
  let ?U = "Tokenizer ''[id=a-b] x''"
  have n: "\<forall>ident rest. isIdent ident \<longrightarrow> drop (pos ?U) (str ?U) \<noteq> idText ident @ rest"
    by (simp add: Tokenizer_def idText_def)
  from tryScanId_atomic[of _ ?U, THEN conjunct2, THEN mp, OF n]
  have 2: "tryScanId ?U = (None, ?U)" .
  from 1 2 show ?thesis by blast
qed

end
